theory Spec2Isabelle
  imports Complex_Main "HOL-Library.Sublist"
begin

section \<open>Data model: \<open>Food\<close> and \<open>FoodVector\<close>\<close>

text \<open>
  A shallow embedding of \<^verbatim>\<open>maxprotein.hh\<close>. The class \<^verbatim>\<open>Food\<close> is a record with the five
  private members. \<^verbatim>\<open>FoodVector\<close> is a vector of shared pointers to immutable \<^verbatim>\<open>Food\<close>
  objects; nothing in the header compares pointers or mutates a \<^verbatim>\<open>Food\<close>, so a vector is
  modelled as the list of the values pointed to.

  The C++ type \<^verbatim>\<open>int\<close> is the 32-bit two's complement integer: a value of type \<open>int\<close>
  in the range from \<open>INT_MIN\<close> to \<open>INT_MAX\<close>, with the wrap-around of every addition
  written out (\<open>wrap_int\<close>). The conversions are written out as well: \<^verbatim>\<open>int\<close> to
  \<^verbatim>\<open>size_t\<close> in \<^verbatim>\<open>filter_food_vector\<close>, \<^verbatim>\<open>size_t\<close> to \<^verbatim>\<open>int\<close>, the 64-bit counter and its
  conversion to \<^verbatim>\<open>double\<close> in \<^verbatim>\<open>exhaustive_max_protein\<close>.
\<close>

record Food =
  description :: string
  amount :: string
  amount_g :: int
  kcal :: int
  protein_g :: int

datatype error = AssertionFailure

definition INT_MAX :: int where
  "INT_MAX = 2 ^ 31 - 1"

definition INT_MIN :: int where
  "INT_MIN = - (2 ^ 31)"

text \<open>The values of the type \<^verbatim>\<open>int\<close>.\<close>

definition is_int :: "int \<Rightarrow> bool" where
  "is_int x \<longleftrightarrow> INT_MIN \<le> x \<and> x \<le> INT_MAX"

text \<open>The \<^verbatim>\<open>int\<close> that an arithmetic result is stored as: the value modulo \<open>2^32\<close>.\<close>

definition wrap_int :: "int \<Rightarrow> int" where
  "wrap_int x = (x + 2 ^ 31) mod 2 ^ 32 - 2 ^ 31"

text \<open>
  A record as the constructor lets it through: the five assertions hold, and the three
  numeric members are values of the type \<^verbatim>\<open>int\<close>.
\<close>

definition valid_food :: "Food \<Rightarrow> bool" where
  "valid_food f \<longleftrightarrow>
     description f \<noteq> [] \<and> amount f \<noteq> [] \<and> 0 \<le> amount_g f \<and> 0 \<le> kcal f \<and> 0 \<le> protein_g f \<and>
     amount_g f \<le> INT_MAX \<and> kcal f \<le> INT_MAX \<and> protein_g f \<le> INT_MAX"

definition new_Food :: "string \<Rightarrow> string \<Rightarrow> int \<Rightarrow> int \<Rightarrow> int \<Rightarrow> error + Food" where
  "new_Food d a g k p =
     (if d \<noteq> [] \<and> a \<noteq> [] \<and> 0 \<le> g \<and> 0 \<le> k \<and> 0 \<le> p
      then Inr \<lparr>description = d, amount = a, amount_g = g, kcal = k, protein_g = p\<rparr>
      else Inl AssertionFailure)"

type_synonym FoodVector = "Food list"

text \<open>Conversion of an \<^verbatim>\<open>int\<close> to the 64-bit unsigned \<^verbatim>\<open>size_t\<close>: reduction modulo \<open>2^64\<close>.\<close>

definition int_to_size_t :: "int \<Rightarrow> nat" where
  "int_to_size_t x = nat (x mod 2 ^ 64)"

section \<open>\<^verbatim>\<open>sum_food_vector\<close>\<close>

text \<open>
  The range-for loop, with the two reference arguments as the accumulator. Both are
  \<^verbatim>\<open>int\<close> variables, so each \<^verbatim>\<open>+=\<close> stores the sum modulo \<open>2^32\<close>.
\<close>

fun sum_loop :: "FoodVector \<Rightarrow> int \<times> int \<Rightarrow> int \<times> int" where
  "sum_loop [] acc = acc"
| "sum_loop (food # rest) (total_kcal, total_protein_g) =
     sum_loop rest
       (wrap_int (total_kcal + kcal food), wrap_int (total_protein_g + protein_g food))"

definition sum_food_vector :: "FoodVector \<Rightarrow> int \<times> int" where
  "sum_food_vector foods = sum_loop foods (0, 0)"

section \<open>\<^verbatim>\<open>filter_food_vector\<close>\<close>

text \<open>
  The condition of the \<^verbatim>\<open>if\<close>. \<^verbatim>\<open>result->size() != total_size\<close> compares a \<^verbatim>\<open>size_t\<close> with
  an \<^verbatim>\<open>int\<close>, so \<^verbatim>\<open>total_size\<close> is converted to \<^verbatim>\<open>size_t\<close> first.
\<close>

definition filter_cond :: "Food \<Rightarrow> int \<Rightarrow> int \<Rightarrow> int \<Rightarrow> FoodVector \<Rightarrow> bool" where
  "filter_cond food min_kcal max_kcal total_size result \<longleftrightarrow>
     kcal food > min_kcal \<and> kcal food \<le> max_kcal \<and> length result \<noteq> int_to_size_t total_size"

fun filter_loop :: "FoodVector \<Rightarrow> int \<Rightarrow> int \<Rightarrow> int \<Rightarrow> FoodVector \<Rightarrow> FoodVector" where
  "filter_loop [] min_kcal max_kcal total_size result = result"
| "filter_loop (food # rest) min_kcal max_kcal total_size result =
     filter_loop rest min_kcal max_kcal total_size
       (if filter_cond food min_kcal max_kcal total_size result then result @ [food] else result)"

definition filter_food_vector :: "FoodVector \<Rightarrow> int \<Rightarrow> int \<Rightarrow> int \<Rightarrow> FoodVector" where
  "filter_food_vector source min_kcal max_kcal total_size =
     filter_loop source min_kcal max_kcal total_size []"

text \<open>The calorie window of the filter, \<open>min_kcal < kcal \<le> max_kcal\<close>.\<close>

definition in_window :: "int \<Rightarrow> int \<Rightarrow> Food \<Rightarrow> bool" where
  "in_window min_kcal max_kcal food \<longleftrightarrow> min_kcal < kcal food \<and> kcal food \<le> max_kcal"

section \<open>\<^verbatim>\<open>greedy_max_protein\<close>\<close>

text \<open>The placeholder \<^verbatim>\<open>Food(" "," ",0,0,0)\<close> that every scan of the working copy starts from.\<close>

definition blank_food :: Food where
  "blank_food = \<lparr>description = '' '', amount = '' '', amount_g = 0, kcal = 0, protein_g = 0\<rparr>"

text \<open>
  The inner range-for loop over \<^verbatim>\<open>todo\<close>. Its state is \<^verbatim>\<open>(f, index, counter)\<close>: the best
  food so far, the position it was found at, and the position of the current element.
  The two positions are \<^verbatim>\<open>int\<close>s that count up from \<open>0\<close>; they are natural numbers
  here, the same values for a working copy of at most \<open>INT_MAX\<close> records.
\<close>

fun scan_loop :: "FoodVector \<Rightarrow> Food \<times> nat \<times> nat \<Rightarrow> Food \<times> nat \<times> nat" where
  "scan_loop [] s = s"
| "scan_loop (food # rest) (f, index, counter) =
     scan_loop rest
       (if protein_g food > protein_g f then (food, counter, counter + 1)
        else (f, index, counter + 1))"

text \<open>\<^verbatim>\<open>todo.erase(todo.begin() + index)\<close>.\<close>

definition erase_at :: "nat \<Rightarrow> 'a list \<Rightarrow> 'a list" where
  "erase_at index xs = take index xs @ drop (Suc index) xs"

text \<open>
  One iteration of the \<^verbatim>\<open>while\<close> loop on the state \<^verbatim>\<open>(todo, result, result_cal)\<close>:
  scan, erase the position found, and push \<^verbatim>\<open>f\<close> when it fits the budget. The sum
  \<^verbatim>\<open>result_cal + f->kcal()\<close> is an \<^verbatim>\<open>int\<close>, in the test and in the update.
\<close>

definition greedy_body ::
  "int \<Rightarrow> FoodVector \<times> FoodVector \<times> int \<Rightarrow> FoodVector \<times> FoodVector \<times> int" where
  "greedy_body total_kcal s =
     (case s of (todo, result, result_cal) \<Rightarrow>
        (case scan_loop todo (blank_food, 0, 0) of (f, index, counter) \<Rightarrow>
           if wrap_int (result_cal + kcal f) \<le> total_kcal
           then (erase_at index todo, result @ [f], wrap_int (result_cal + kcal f))
           else (erase_at index todo, result, result_cal)))"

function greedy_loop :: "int \<Rightarrow> FoodVector \<times> FoodVector \<times> int \<Rightarrow> FoodVector" where
  "greedy_loop total_kcal (todo, result, result_cal) =
     (if todo \<noteq> [] then greedy_loop total_kcal (greedy_body total_kcal (todo, result, result_cal))
      else result)"
  by pat_completeness auto
termination
proof (relation "measure (\<lambda>(total_kcal, todo, result, result_cal). length todo)")
  show "wf (measure (\<lambda>(total_kcal, todo, result, result_cal). length todo))"
    by simp
next
  fix total_kcal :: int and todo result :: FoodVector and result_cal :: int
  assume nonempty: "todo \<noteq> []"
  have bound: "snd s = (i, c) \<Longrightarrow> i < c + length xs \<Longrightarrow>
      fst (snd (scan_loop xs s)) < c + length xs" for xs :: FoodVector and s i c
  proof (induction xs arbitrary: s i c)
    case Nil
    then show ?case by simp
  next
    case (Cons food rest)
    obtain f where s: "s = (f, i, c)"
      using Cons.prems(1) by (cases s) auto
    show ?case
    proof (cases "protein_g food > protein_g f")
      case True
      have "fst (snd (scan_loop rest (food, c, c + 1))) < (c + 1) + length rest"
        by (rule Cons.IH [of "(food, c, c + 1)" c "c + 1"]) simp_all
      with True s show ?thesis by simp
    next
      case False
      have "fst (snd (scan_loop rest (f, i, c + 1))) < (c + 1) + length rest"
        by (rule Cons.IH [of "(f, i, c + 1)" i "c + 1"]) (use Cons.prems s in simp_all)
      with False s show ?thesis by simp
    qed
  qed
  have "fst (snd (scan_loop todo (blank_food, 0, 0))) < 0 + length todo"
    by (rule bound [of _ 0 0]) (use nonempty in simp_all)
  then have "length (fst (greedy_body total_kcal (todo, result, result_cal))) < length todo"
    by (auto simp: greedy_body_def erase_at_def split: prod.splits)
  then show "((total_kcal, greedy_body total_kcal (todo, result, result_cal)),
              (total_kcal, todo, result, result_cal))
        \<in> measure (\<lambda>(total_kcal, todo, result, result_cal). length todo)"
    by (cases "greedy_body total_kcal (todo, result, result_cal)") simp
qed

definition greedy_max_protein :: "FoodVector \<Rightarrow> int \<Rightarrow> FoodVector" where
  "greedy_max_protein foods total_kcal = greedy_loop total_kcal (foods, [], 0)"

text \<open>
  The loop invariant behind the budget guarantee: \<^verbatim>\<open>result_cal\<close> is the calorie sum of
  \<^verbatim>\<open>result\<close>, as \<^verbatim>\<open>sum_food_vector\<close> computes it, and does not exceed the budget.
\<close>

definition greedy_inv :: "int \<Rightarrow> FoodVector \<times> FoodVector \<times> int \<Rightarrow> bool" where
  "greedy_inv total_kcal s \<longleftrightarrow>
     snd (snd s) = fst (sum_food_vector (fst (snd s))) \<and> snd (snd s) \<le> total_kcal"

text \<open>
  The invariant of the runs without overflow: the working copy holds candidates, and
  \<^verbatim>\<open>result_cal\<close> is the sum of the calories of \<^verbatim>\<open>result\<close>, between \<open>0\<close> and the budget.
\<close>

definition greedy_exact_inv ::
  "FoodVector \<Rightarrow> int \<Rightarrow> FoodVector \<times> FoodVector \<times> int \<Rightarrow> bool" where
  "greedy_exact_inv foods total_kcal s \<longleftrightarrow>
     set (fst s) \<subseteq> set foods \<and> snd (snd s) = sum_list (map kcal (fst (snd s))) \<and>
     0 \<le> snd (snd s) \<and> snd (snd s) \<le> total_kcal"

section \<open>\<^verbatim>\<open>exhaustive_max_protein\<close>\<close>

text \<open>
  \<^verbatim>\<open>const int n = foods.size()\<close>: conversion of a \<^verbatim>\<open>size_t\<close> to the 32-bit \<^verbatim>\<open>int\<close>, which
  keeps the value modulo \<open>2^32\<close> in the range \<open>[-2^31, 2^31)\<close>.
\<close>

definition size_t_to_int :: "nat \<Rightarrow> int" where
  "size_t_to_int k = (int k + 2 ^ 31) mod 2 ^ 32 - 2 ^ 31"

text \<open>
  \<^verbatim>\<open>double power = pow(2, n)\<close>. A power of two is a \<^verbatim>\<open>double\<close> exactly from \<open>2^-1074\<close> on
  (the asserted \<open>n < 64\<close> is far below the largest exponent); smaller results round to zero.
\<close>

definition pow_2 :: "int \<Rightarrow> rat" where
  "pow_2 n = (if n < - 1074 then 0 else 2 powi n)"

text \<open>Number of binary digits of a natural number.\<close>

fun bit_length :: "nat \<Rightarrow> nat" where
  "bit_length b = (if b = 0 then 0 else Suc (bit_length (b div 2)))"

text \<open>
  The loop test \<^verbatim>\<open>bits < power\<close> compares a \<^verbatim>\<open>uint64_t\<close> with a \<^verbatim>\<open>double\<close>, so \<^verbatim>\<open>bits\<close> is
  converted to \<^verbatim>\<open>double\<close> first. A \<^verbatim>\<open>double\<close> has a 53-bit significand: values below
  \<open>2^53\<close> convert exactly, larger ones are rounded to 53 significant bits (to nearest, ties
  to even, the IEEE 754 default). The result is again a natural number.
\<close>

definition uint64_to_double :: "nat \<Rightarrow> nat" where
  "uint64_to_double b =
     (if b < 2 ^ 53 then b
      else let e = bit_length b - 53;
               q = b div 2 ^ e;
               r = b mod 2 ^ e;
               half = 2 ^ (e - 1)
           in (if r < half \<or> (r = half \<and> even q) then q else q + 1) * 2 ^ e)"

definition bits_lt_power :: "nat \<Rightarrow> int \<Rightarrow> bool" where
  "bits_lt_power bits n \<longleftrightarrow> of_nat (uint64_to_double bits) < pow_2 n"

text \<open>
  The inner loop \<^verbatim>\<open>for (int j = 0; j < n; j++)\<close> that builds \<^verbatim>\<open>candidate\<close>; the test
  \<^verbatim>\<open>((bits >> j) & 1) == 1\<close> reads bit \<open>j\<close> of the mask. Whenever \<open>j < n\<close> holds, \<open>j\<close> is below
  the size of \<^verbatim>\<open>foods\<close>, because a non-negative \<open>n\<close> is the size modulo \<open>2^32\<close>.
\<close>

function candidate_loop :: "FoodVector \<Rightarrow> int \<Rightarrow> nat \<Rightarrow> nat \<Rightarrow> FoodVector \<Rightarrow> FoodVector" where
  "candidate_loop foods n bits j candidate =
     (if int j < n
      then candidate_loop foods n bits (j + 1)
             (if (bits div 2 ^ j) mod 2 = 1 then candidate @ [foods ! j] else candidate)
      else candidate)"
  by pat_completeness auto
termination
  by (relation "measure (\<lambda>(foods, n, bits, j, candidate). nat (n - int j))") auto

text \<open>
  The body of the outer loop after \<^verbatim>\<open>candidate\<close> is built: both calls of
  \<^verbatim>\<open>sum_food_vector\<close> and the two nested \<^verbatim>\<open>if\<close>s; the value is the new \<^verbatim>\<open>*best\<close>.
\<close>

definition update_best :: "int \<Rightarrow> FoodVector \<Rightarrow> FoodVector \<Rightarrow> FoodVector" where
  "update_best total_kcal candidate best =
     (case sum_food_vector candidate of (cand_calories, cand_protein) \<Rightarrow>
      case sum_food_vector best of (best_calories, best_protein) \<Rightarrow>
        if cand_calories \<le> total_kcal
        then (if best = [] \<or> cand_protein > best_protein then candidate else best)
        else best)"

text \<open>
  The outer loop \<^verbatim>\<open>for (uint64_t bits = 0; bits < power; bits++)\<close>. The counter wraps at
  \<open>2^64\<close>, so for a large enough \<^verbatim>\<open>power\<close> the loop would not end: the result is an option,
  \<open>None\<close> standing for a loop that never returns.
\<close>

partial_function (option) exhaustive_loop ::
  "FoodVector \<Rightarrow> int \<Rightarrow> int \<Rightarrow> nat \<Rightarrow> FoodVector \<Rightarrow> FoodVector option" where
  "exhaustive_loop foods total_kcal n bits best =
     (if bits_lt_power bits n
      then exhaustive_loop foods total_kcal n ((bits + 1) mod 2 ^ 64)
             (update_best total_kcal (candidate_loop foods n bits 0 []) best)
      else Some best)"

declare exhaustive_loop.simps [code]

text \<open>
  The function itself: \<open>Some (Inl AssertionFailure)\<close> when \<^verbatim>\<open>assert(n < 64)\<close> fails
  (assertions are compiled in), \<open>Some (Inr best)\<close> when the search returns \<^verbatim>\<open>best\<close>.
\<close>

definition exhaustive_max_protein :: "FoodVector \<Rightarrow> int \<Rightarrow> (error + FoodVector) option" where
  "exhaustive_max_protein foods total_kcal =
     (let n = size_t_to_int (length foods)
      in if \<not> n < 64 then Some (Inl AssertionFailure)
         else map_option Inr (exhaustive_loop foods total_kcal n 0 []))"

text \<open>The trial subset that the outer loop builds for the mask \<^verbatim>\<open>bits\<close>.\<close>

definition candidate_of :: "FoodVector \<Rightarrow> nat \<Rightarrow> FoodVector" where
  "candidate_of foods bits = candidate_loop foods (size_t_to_int (length foods)) bits 0 []"

text \<open>The value of \<^verbatim>\<open>*best\<close> after the iterations for the masks \<open>0, \<dots>, m - 1\<close>.\<close>

definition best_after :: "FoodVector \<Rightarrow> int \<Rightarrow> nat \<Rightarrow> FoodVector" where
  "best_after foods total_kcal m =
     foldl (\<lambda>best bits. update_best total_kcal (candidate_of foods bits) best) [] [0..<m]"

text \<open>Feasibility and protein of the trial subset for a mask, as the loop body computes them.\<close>

definition feasible :: "FoodVector \<Rightarrow> int \<Rightarrow> nat \<Rightarrow> bool" where
  "feasible foods total_kcal bits \<longleftrightarrow>
     fst (sum_food_vector (candidate_of foods bits)) \<le> total_kcal"

definition protein_of :: "FoodVector \<Rightarrow> nat \<Rightarrow> int" where
  "protein_of foods bits = snd (sum_food_vector (candidate_of foods bits))"

text \<open>
  \<open>first_best foods total_kcal b m\<close>: among the non-zero masks below \<open>b\<close>, the mask \<open>m\<close> is
  feasible, has the greatest protein of the feasible ones, and is the least mask with that
  protein.
\<close>

definition first_best :: "FoodVector \<Rightarrow> int \<Rightarrow> nat \<Rightarrow> nat \<Rightarrow> bool" where
  "first_best foods total_kcal b m \<longleftrightarrow>
     m \<in> {1..<b} \<and> feasible foods total_kcal m \<and>
     (\<forall>m' \<in> {1..<b}. feasible foods total_kcal m' \<longrightarrow>
        protein_of foods m' \<le> protein_of foods m \<and>
        (protein_of foods m' = protein_of foods m \<longrightarrow> m \<le> m'))"

section \<open>Sample records\<close>

text \<open>A valid record with the given calories and protein, for the concrete instances below.\<close>

definition sample_food :: "int \<Rightarrow> int \<Rightarrow> Food" where
  "sample_food k p =
     \<lparr>description = ''food'', amount = ''1 cup'', amount_g = 100, kcal = k, protein_g = p\<rparr>"

section \<open>The type \<^verbatim>\<open>int\<close>\<close>

lemma wrap_int_id: "is_int x \<Longrightarrow> wrap_int x = x"
proof -
  assume "is_int x"
  then have "0 \<le> x + 2 ^ 31" "x + 2 ^ 31 < 2 ^ 32"
    by (simp_all add: is_int_def INT_MIN_def INT_MAX_def)
  then have "(x + 2 ^ 31) mod 2 ^ 32 = x + 2 ^ 31"
    by (rule mod_pos_pos_trivial)
  then show ?thesis by (simp add: wrap_int_def)
qed

lemma is_int_wrap_int: "is_int (wrap_int x)"
proof -
  have "0 \<le> (x + 2 ^ 31) mod (2 ^ 32 :: int)" "(x + 2 ^ 31) mod (2 ^ 32 :: int) < 2 ^ 32"
    by simp_all
  then show ?thesis
    by (simp add: wrap_int_def is_int_def INT_MIN_def INT_MAX_def)
qed

lemma wrap_int_add_left: "wrap_int (wrap_int a + b) = wrap_int (a + b)"
proof -
  have "(wrap_int a + b + 2 ^ 31) mod 2 ^ 32 = ((a + 2 ^ 31) mod 2 ^ 32 + b) mod 2 ^ 32"
    by (simp add: wrap_int_def)
  also have "\<dots> = (a + 2 ^ 31 + b) mod 2 ^ 32"
    by (rule mod_add_left_eq)
  also have "\<dots> = (a + b + 2 ^ 31) mod 2 ^ 32"
    by (simp add: algebra_simps)
  finally show ?thesis
    by (simp add: wrap_int_def)
qed

lemma wrap_int_add_right: "wrap_int (a + wrap_int b) = wrap_int (a + b)"
  using wrap_int_add_left [of b a] by (simp add: add.commute)

lemma wrap_int_assoc:
  "wrap_int (wrap_int (a + b) + c) = wrap_int (a + wrap_int (b + c))"
  by (simp add: wrap_int_add_left wrap_int_add_right add.assoc)

lemma is_int_0: "is_int 0"
  by (simp add: is_int_def INT_MIN_def INT_MAX_def)

section \<open>Records built by the constructor\<close>

lemma new_Food_valid:
  "is_int g \<Longrightarrow> is_int k \<Longrightarrow> is_int p \<Longrightarrow> new_Food d a g k p = Inr f \<Longrightarrow> valid_food f"
  by (auto simp: new_Food_def valid_food_def is_int_def split: if_splits)

lemma new_Food_sample:
  "0 \<le> k \<Longrightarrow> 0 \<le> p \<Longrightarrow> new_Food ''food'' ''1 cup'' 100 k p = Inr (sample_food k p)"
  by (simp add: new_Food_def sample_food_def)

lemma new_Food_blank: "new_Food '' '' '' '' 0 0 0 = Inr blank_food"
  by (simp add: new_Food_def blank_food_def)

lemma valid_food_kcal: "valid_food f \<Longrightarrow> 0 \<le> kcal f \<and> kcal f \<le> INT_MAX"
  by (simp add: valid_food_def)

lemma valid_food_protein: "valid_food f \<Longrightarrow> 0 \<le> protein_g f \<and> protein_g f \<le> INT_MAX"
  by (simp add: valid_food_def)

section \<open>Properties of \<^verbatim>\<open>sum_food_vector\<close>\<close>

lemma sum_loop_wrap:
  "is_int a \<Longrightarrow> is_int b \<Longrightarrow>
   sum_loop foods (a, b) =
     (wrap_int (a + sum_list (map kcal foods)), wrap_int (b + sum_list (map protein_g foods)))"
proof (induction foods arbitrary: a b)
  case Nil
  then show ?case by (simp add: wrap_int_id)
next
  case (Cons food rest)
  have "sum_loop (food # rest) (a, b) =
      sum_loop rest (wrap_int (a + kcal food), wrap_int (b + protein_g food))"
    by simp
  also have "\<dots> = (wrap_int (wrap_int (a + kcal food) + sum_list (map kcal rest)),
                   wrap_int (wrap_int (b + protein_g food) + sum_list (map protein_g rest)))"
    by (rule Cons.IH) (rule is_int_wrap_int)+
  also have "\<dots> = (wrap_int (a + sum_list (map kcal (food # rest))),
                   wrap_int (b + sum_list (map protein_g (food # rest))))"
    by (simp add: wrap_int_add_left add.assoc)
  finally show ?case .
qed

lemma sum_food_vector_sum_list:
  "sum_food_vector foods =
     (wrap_int (sum_list (map kcal foods)), wrap_int (sum_list (map protein_g foods)))"
  unfolding sum_food_vector_def using sum_loop_wrap [OF is_int_0 is_int_0, of foods] by simp

lemma sum_food_vector_Nil: "sum_food_vector [] = (0, 0)"
  by (simp add: sum_food_vector_def)

lemma sum_food_vector_append:
  "sum_food_vector (xs @ ys) =
     (wrap_int (fst (sum_food_vector xs) + fst (sum_food_vector ys)),
      wrap_int (snd (sum_food_vector xs) + snd (sum_food_vector ys)))"
  by (simp add: sum_food_vector_sum_list wrap_int_add_left wrap_int_add_right)

lemma sum_food_vector_snoc:
  "sum_food_vector (xs @ [f]) =
     (wrap_int (fst (sum_food_vector xs) + kcal f),
      wrap_int (snd (sum_food_vector xs) + protein_g f))"
  by (simp add: sum_food_vector_sum_list wrap_int_add_left)

lemma kcal_sum_exact:
  assumes "\<forall>f \<in> set xs. 0 \<le> kcal f" and "sum_list (map kcal xs) \<le> INT_MAX"
  shows "fst (sum_food_vector xs) = sum_list (map kcal xs)"
proof -
  have "0 \<le> sum_list (map kcal xs)"
    using assms(1) by (auto intro!: sum_list_nonneg)
  with assms(2) have "is_int (sum_list (map kcal xs))"
    by (simp add: is_int_def INT_MIN_def)
  then show ?thesis
    by (simp add: sum_food_vector_sum_list wrap_int_id)
qed

lemma protein_sum_exact:
  assumes "\<forall>f \<in> set xs. 0 \<le> protein_g f" and "sum_list (map protein_g xs) \<le> INT_MAX"
  shows "snd (sum_food_vector xs) = sum_list (map protein_g xs)"
proof -
  have "0 \<le> sum_list (map protein_g xs)"
    using assms(1) by (auto intro!: sum_list_nonneg)
  with assms(2) have "is_int (sum_list (map protein_g xs))"
    by (simp add: is_int_def INT_MIN_def)
  then show ?thesis
    by (simp add: sum_food_vector_sum_list wrap_int_id)
qed

text \<open>
  C8 (amended). \<^verbatim>\<open>sum_food_vector\<close> is a monoid homomorphism from sequences under
  concatenation to pairs of \<^verbatim>\<open>int\<close>s under componentwise \<^verbatim>\<open>int\<close> addition, which wraps
  around modulo \<open>2^32\<close> (and is associative): the empty sequence sums to \<open>(0, 0)\<close>, a
  singleton to the record's own calories and protein, and a concatenation to the
  componentwise \<^verbatim>\<open>int\<close> sum of the two sums. This is the componentwise sum of integers
  whenever the calories and the protein of the whole sequence add up to at most \<open>INT_MAX\<close>.
\<close>

theorem sum_food_vector_monoid_hom:
  "sum_food_vector [] = (0, 0) \<and>
   (valid_food r \<longrightarrow> sum_food_vector [r] = (kcal r, protein_g r)) \<and>
   sum_food_vector (xs @ ys) =
     (wrap_int (fst (sum_food_vector xs) + fst (sum_food_vector ys)),
      wrap_int (snd (sum_food_vector xs) + snd (sum_food_vector ys))) \<and>
   wrap_int (wrap_int (a + b) + c) = wrap_int (a + wrap_int (b + c)) \<and>
   ((\<forall>f \<in> set (xs @ ys). valid_food f) \<and>
    sum_list (map kcal (xs @ ys)) \<le> INT_MAX \<and> sum_list (map protein_g (xs @ ys)) \<le> INT_MAX \<longrightarrow>
    sum_food_vector (xs @ ys) =
      (fst (sum_food_vector xs) + fst (sum_food_vector ys),
       snd (sum_food_vector xs) + snd (sum_food_vector ys)))"
proof (intro conjI impI)
  show "sum_food_vector [] = (0, 0)"
    by (rule sum_food_vector_Nil)
  show "sum_food_vector [r] = (kcal r, protein_g r)" if "valid_food r"
  proof -
    from that have "is_int (kcal r)" "is_int (protein_g r)"
      by (simp_all add: valid_food_def is_int_def INT_MIN_def)
    then show ?thesis
      by (simp add: sum_food_vector_sum_list wrap_int_id)
  qed
  show "sum_food_vector (xs @ ys) =
     (wrap_int (fst (sum_food_vector xs) + fst (sum_food_vector ys)),
      wrap_int (snd (sum_food_vector xs) + snd (sum_food_vector ys)))"
    by (rule sum_food_vector_append)
  show "wrap_int (wrap_int (a + b) + c) = wrap_int (a + wrap_int (b + c))"
    by (rule wrap_int_assoc)
  show "sum_food_vector (xs @ ys) =
      (fst (sum_food_vector xs) + fst (sum_food_vector ys),
       snd (sum_food_vector xs) + snd (sum_food_vector ys))"
    if h: "(\<forall>f \<in> set (xs @ ys). valid_food f) \<and>
       sum_list (map kcal (xs @ ys)) \<le> INT_MAX \<and> sum_list (map protein_g (xs @ ys)) \<le> INT_MAX"
  proof -
    have k: "0 \<le> kcal f" and p: "0 \<le> protein_g f" if "f \<in> set (xs @ ys)" for f
      using h that by (auto simp: valid_food_def)
    have "0 \<le> sum_list (map kcal xs)" "0 \<le> sum_list (map kcal ys)"
      "0 \<le> sum_list (map protein_g xs)" "0 \<le> sum_list (map protein_g ys)"
      using k p by (auto intro!: sum_list_nonneg)
    with h have "is_int (sum_list (map kcal xs))" "is_int (sum_list (map kcal ys))"
      "is_int (sum_list (map kcal xs) + sum_list (map kcal ys))"
      "is_int (sum_list (map protein_g xs))" "is_int (sum_list (map protein_g ys))"
      "is_int (sum_list (map protein_g xs) + sum_list (map protein_g ys))"
      by (simp_all add: is_int_def INT_MIN_def)
    then show ?thesis
      by (simp add: sum_food_vector_sum_list wrap_int_id)
  qed
qed

theorem sum_food_vector_monoid_hom_witness:
  "valid_food (sample_food 200 20) \<and>
   sum_food_vector [sample_food 200 20] = (200, 20) \<and>
   list_all valid_food ([sample_food 200 20] @ [sample_food 300 25]) \<and>
   sum_list (map kcal ([sample_food 200 20] @ [sample_food 300 25])) \<le> INT_MAX \<and>
   sum_list (map protein_g ([sample_food 200 20] @ [sample_food 300 25])) \<le> INT_MAX \<and>
   sum_food_vector ([sample_food 200 20] @ [sample_food 300 25]) = (500, 45)"
  using sum_food_vector_monoid_hom
    [of "sample_food 200 20" "[sample_food 200 20]" "[sample_food 300 25]" 0 0 0]
  by (simp add: valid_food_def sample_food_def INT_MAX_def sum_food_vector_def wrap_int_def)

text \<open>
  With integer addition the claim fails: the calories \<open>2147483647\<close> and \<open>1\<close> sum to
  \<open>-2147483648\<close> in \<^verbatim>\<open>sum_food_vector\<close>, not to the sum \<open>2147483648\<close> of the two single sums.
\<close>

theorem sum_food_vector_monoid_hom_counterexample:
  "sum_food_vector ([sample_food 2147483647 0] @ [sample_food 1 0]) = (- 2147483648, 0) \<and>
   fst (sum_food_vector [sample_food 2147483647 0]) + fst (sum_food_vector [sample_food 1 0])
     = 2147483648"
  by (simp add: sum_food_vector_def sample_food_def wrap_int_def)

section \<open>Properties of \<^verbatim>\<open>filter_food_vector\<close>\<close>

lemma filter_loop_take:
  "length result \<le> int_to_size_t total_size \<Longrightarrow>
   filter_loop source min_kcal max_kcal total_size result =
     result @ take (int_to_size_t total_size - length result)
                   (filter (in_window min_kcal max_kcal) source)"
proof (induction source arbitrary: result)
  case Nil
  show ?case by simp
next
  case (Cons food rest)
  show ?case
  proof (cases "filter_cond food min_kcal max_kcal total_size result")
    case True
    then have win: "in_window min_kcal max_kcal food"
      and lt: "length result < int_to_size_t total_size"
      using Cons.prems by (auto simp: filter_cond_def in_window_def)
    have "filter_loop (food # rest) min_kcal max_kcal total_size result =
        filter_loop rest min_kcal max_kcal total_size (result @ [food])"
      using True by simp
    also have "\<dots> = (result @ [food]) @
        take (int_to_size_t total_size - length (result @ [food]))
             (filter (in_window min_kcal max_kcal) rest)"
      by (rule Cons.IH) (use lt in simp)
    also have "\<dots> = result @ take (int_to_size_t total_size - length result)
        (filter (in_window min_kcal max_kcal) (food # rest))"
      using win lt by (simp add: take_Cons')
    finally show ?thesis .
  next
    case False
    have step: "filter_loop (food # rest) min_kcal max_kcal total_size result =
        result @ take (int_to_size_t total_size - length result)
                      (filter (in_window min_kcal max_kcal) rest)"
      using False Cons.IH [OF Cons.prems] by simp
    show ?thesis
    proof (cases "in_window min_kcal max_kcal food")
      case True
      with False have "length result = int_to_size_t total_size"
        by (simp add: filter_cond_def in_window_def)
      with step show ?thesis by simp
    next
      case False
      with step show ?thesis by simp
    qed
  qed
qed

lemma filter_food_vector_take:
  "filter_food_vector source min_kcal max_kcal total_size =
     take (int_to_size_t total_size) (filter (in_window min_kcal max_kcal) source)"
  unfolding filter_food_vector_def
  using filter_loop_take [of "[]" total_size source min_kcal max_kcal] by simp

lemma int_to_size_t_nonneg:
  "0 \<le> x \<Longrightarrow> x \<le> INT_MAX \<Longrightarrow> int_to_size_t x = nat x"
  by (simp add: int_to_size_t_def INT_MAX_def)

lemma int_to_size_t_neg:
  "INT_MIN \<le> x \<Longrightarrow> x < 0 \<Longrightarrow> int_to_size_t x = nat (2 ^ 64 + x)"
proof -
  assume a: "INT_MIN \<le> x" "x < 0"
  then have "0 \<le> 2 ^ 64 + x" "2 ^ 64 + x < 2 ^ 64"
    by (simp_all add: INT_MIN_def)
  then have "(2 ^ 64 + x) mod 2 ^ 64 = 2 ^ 64 + x"
    by (rule mod_pos_pos_trivial)
  then have "x mod 2 ^ 64 = 2 ^ 64 + x"
    by simp
  then show ?thesis by (simp add: int_to_size_t_def)
qed

text \<open>
  C5 (amended). For a limit \<open>0 \<le> total_size\<close> (an \<^verbatim>\<open>int\<close>, so at most \<open>INT_MAX\<close>),
  \<^verbatim>\<open>filter_food_vector\<close> returns exactly the first \<open>total_size\<close> records of the source, in
  source order, with \<open>min_kcal < kcal \<le> max_kcal\<close> (all of them when fewer match): every
  output record is within the bounds, the output is no longer than the limit, and it is a
  subsequence of the source.
\<close>

theorem filter_food_vector_first_matches:
  assumes "0 \<le> total_size" and "total_size \<le> INT_MAX"
  shows "filter_food_vector source min_kcal max_kcal total_size =
           take (nat total_size) (filter (\<lambda>r. min_kcal < kcal r \<and> kcal r \<le> max_kcal) source) \<and>
         (\<forall>r \<in> set (filter_food_vector source min_kcal max_kcal total_size).
            min_kcal < kcal r \<and> kcal r \<le> max_kcal) \<and>
         int (length (filter_food_vector source min_kcal max_kcal total_size)) \<le> total_size \<and>
         subseq (filter_food_vector source min_kcal max_kcal total_size) source"
proof -
  let ?out = "filter_food_vector source min_kcal max_kcal total_size"
  let ?P = "\<lambda>r. min_kcal < kcal r \<and> kcal r \<le> max_kcal"
  have P: "in_window min_kcal max_kcal = ?P"
    by (rule ext) (simp add: in_window_def)
  have eq: "?out = take (nat total_size) (filter ?P source)"
    using assms by (simp add: filter_food_vector_take int_to_size_t_nonneg P)
  have "set ?out \<subseteq> set (filter ?P source)"
    unfolding eq by (rule set_take_subset)
  then have bounds: "\<forall>r \<in> set ?out. ?P r"
    by auto
  have len: "int (length ?out) \<le> total_size"
    unfolding eq using assms by simp
  have "subseq (take (nat total_size) (filter ?P source)) (filter ?P source)"
    by (rule prefix_imp_subseq [OF take_is_prefix])
  then have sub: "subseq ?out source"
    unfolding eq by (rule subseq_order.order_trans [OF _ subseq_filter_left])
  from eq bounds len sub show ?thesis by blast
qed

theorem filter_food_vector_first_matches_witness:
  "(0::int) \<le> 2 \<and> (2::int) \<le> INT_MAX \<and>
   filter_food_vector
     [sample_food 5 0, sample_food 6 0, sample_food 20 1, sample_food 7 1] 0 10 2 =
   [sample_food 5 0, sample_food 6 0]"
proof -
  have h1: "(0::int) \<le> 2" by simp
  have h2: "(2::int) \<le> INT_MAX" by (simp add: INT_MAX_def)
  show ?thesis
    using h1 h2
      filter_food_vector_first_matches [OF h1 h2,
        of "[sample_food 5 0, sample_food 6 0, sample_food 20 1, sample_food 7 1]" 0 10]
    by (simp add: sample_food_def)
qed

text \<open>
  The claim as stated, for every limit, fails at the limit \<open>-1\<close>: the one matching record
  is returned, and the output is longer than the limit.
\<close>

theorem filter_food_vector_first_matches_counterexample:
  "filter_food_vector [sample_food 5 0] 0 10 (- 1) = [sample_food 5 0] \<and>
   \<not> int (length (filter_food_vector [sample_food 5 0] 0 10 (- 1))) \<le> - 1"
  by (simp add: filter_food_vector_def filter_cond_def int_to_size_t_def sample_food_def)

text \<open>
  C9. For a negative \<^verbatim>\<open>total_size\<close> the converted limit is at least \<open>2^64 - 2^31\<close>, which the
  size of a vector never reaches (a vector on a 64-bit machine holds fewer than \<open>2^63\<close>
  elements): every record within the calorie bounds is returned, with no truncation, and
  the output length exceeds \<^verbatim>\<open>total_size\<close>.
\<close>

theorem filter_food_vector_negative_limit:
  assumes "total_size < 0" and "INT_MIN \<le> total_size" and "length source < 2 ^ 63"
  shows "filter_food_vector source min_kcal max_kcal total_size =
           filter (\<lambda>r. min_kcal < kcal r \<and> kcal r \<le> max_kcal) source \<and>
         total_size < int (length (filter_food_vector source min_kcal max_kcal total_size))"
proof -
  let ?P = "\<lambda>r. min_kcal < kcal r \<and> kcal r \<le> max_kcal"
  have P: "in_window min_kcal max_kcal = ?P"
    by (rule ext) (simp add: in_window_def)
  have "(2::int) ^ 63 \<le> 2 ^ 64 + total_size"
    using assms(2) by (simp add: INT_MIN_def)
  then have "(2::nat) ^ 63 \<le> nat (2 ^ 64 + total_size)"
    by (simp add: le_nat_iff)
  then have big: "(2::nat) ^ 63 \<le> int_to_size_t total_size"
    using assms by (simp add: int_to_size_t_neg)
  have "length (filter ?P source) \<le> length source"
    by (rule length_filter_le)
  with assms(3) big have "length (filter ?P source) \<le> int_to_size_t total_size"
    by linarith
  then have eq: "filter_food_vector source min_kcal max_kcal total_size = filter ?P source"
    by (simp add: filter_food_vector_take P)
  have "total_size < int (length (filter_food_vector source min_kcal max_kcal total_size))"
    using assms(1) by linarith
  with eq show ?thesis by blast
qed

theorem filter_food_vector_negative_limit_witness:
  "(- 3::int) < 0 \<and> INT_MIN \<le> - 3 \<and>
   length [sample_food 5 0, sample_food 6 0, sample_food 20 1, sample_food 7 1] < 2 ^ 63 \<and>
   filter_food_vector
     [sample_food 5 0, sample_food 6 0, sample_food 20 1, sample_food 7 1] 0 10 (- 3) =
   [sample_food 5 0, sample_food 6 0, sample_food 7 1]"
proof -
  have h1: "(- 3::int) < 0" by simp
  have h2: "INT_MIN \<le> - 3" by (simp add: INT_MIN_def)
  have h3: "length [sample_food 5 0, sample_food 6 0, sample_food 20 1, sample_food 7 1]
            < 2 ^ 63" by simp
  show ?thesis
    using h1 h2 h3 filter_food_vector_negative_limit [OF h1 h2 h3, of 0 10]
    by (simp add: sample_food_def)
qed

section \<open>Properties of \<^verbatim>\<open>greedy_max_protein\<close>\<close>

lemma scan_loop_index:
  "i < c + length xs \<Longrightarrow> fst (snd (scan_loop xs (f, i, c))) < c + length xs"
proof (induction xs arbitrary: f i c)
  case Nil
  then show ?case by simp
next
  case (Cons food rest)
  show ?case
  proof (cases "protein_g food > protein_g f")
    case True
    have "fst (snd (scan_loop rest (food, c, c + 1))) < (c + 1) + length rest"
      by (rule Cons.IH) simp
    with True show ?thesis by simp
  next
    case False
    have "fst (snd (scan_loop rest (f, i, c + 1))) < (c + 1) + length rest"
      by (rule Cons.IH) (use Cons.prems in simp)
    with False show ?thesis by simp
  qed
qed

lemma scan_loop_index_todo:
  "todo \<noteq> [] \<Longrightarrow> fst (snd (scan_loop todo (blank_food, 0, 0))) < length todo"
  using scan_loop_index [of 0 0 todo blank_food] by simp

lemma length_erase_at: "i < length xs \<Longrightarrow> length (erase_at i xs) = length xs - 1"
  by (auto simp: erase_at_def)

lemma greedy_body_todo:
  "fst (greedy_body total_kcal (todo, result, result_cal)) =
     erase_at (fst (snd (scan_loop todo (blank_food, 0, 0)))) todo"
  by (simp add: greedy_body_def split: prod.splits)

lemma greedy_body_length:
  "length (fst (greedy_body total_kcal s)) = length (fst s) - 1"
proof (cases s)
  case (fields todo result result_cal)
  show ?thesis
  proof (cases "todo = []")
    case True
    with fields show ?thesis by (simp add: greedy_body_todo erase_at_def)
  next
    case False
    with fields show ?thesis
      by (simp add: greedy_body_todo length_erase_at scan_loop_index_todo)
  qed
qed


lemma greedy_loop_iter:
  "greedy_loop total_kcal s = fst (snd ((greedy_body total_kcal ^^ length (fst s)) s))"
proof (induction "length (fst s)" arbitrary: s)
  case 0
  then show ?case by (cases s) simp
next
  case (Suc k)
  obtain todo result result_cal where s: "s = (todo, result, result_cal)"
    by (cases s)
  with Suc.hyps(2) have ne: "todo \<noteq> []" by auto
  have len: "k = length (fst (greedy_body total_kcal s))"
    using Suc.hyps(2) by (simp add: greedy_body_length)
  have "greedy_loop total_kcal s = greedy_loop total_kcal (greedy_body total_kcal s)"
    using ne s by simp
  also have "\<dots> = fst (snd ((greedy_body total_kcal ^^ k) (greedy_body total_kcal s)))"
    using Suc.hyps(1) [OF len] len by simp
  also have "\<dots> = fst (snd ((greedy_body total_kcal ^^ Suc k) s))"
    by (simp add: funpow_swap1)
  finally show ?case using Suc.hyps(2) by simp
qed



lemma greedy_body_inv:
  "greedy_inv total_kcal s \<Longrightarrow> greedy_inv total_kcal (greedy_body total_kcal s)"
  by (cases s)
     (auto simp: greedy_inv_def greedy_body_def sum_food_vector_snoc split: prod.splits)

lemma greedy_iter_inv:
  "greedy_inv total_kcal s \<Longrightarrow> greedy_inv total_kcal ((greedy_body total_kcal ^^ j) s)"
  by (induction j) (simp_all add: greedy_body_inv)

lemma scan_loop_pick: "fst (scan_loop xs (f, i, c)) \<in> insert f (set xs)"
  by (induction xs arbitrary: f i c) (auto split: if_splits)

lemma set_erase_at: "set (erase_at i xs) \<subseteq> set xs"
  unfolding erase_at_def using set_take_subset [of i xs] set_drop_subset [of "Suc i" xs]
  by auto

lemma greedy_body_exact_inv:
  assumes budget: "total_kcal \<le> INT_MAX"
    and foods: "\<forall>f \<in> set foods. valid_food f \<and> total_kcal + kcal f \<le> INT_MAX"
    and inv: "greedy_exact_inv foods total_kcal s"
  shows "greedy_exact_inv foods total_kcal (greedy_body total_kcal s)"
proof -
  obtain todo result result_cal where s: "s = (todo, result, result_cal)"
    by (cases s)
  obtain f index counter where scan: "scan_loop todo (blank_food, 0, 0) = (f, index, counter)"
    by (cases "scan_loop todo (blank_food, 0, 0)")
  from inv s have todo: "set todo \<subseteq> set foods"
    and cal: "result_cal = sum_list (map kcal result)" "0 \<le> result_cal" "result_cal \<le> total_kcal"
    by (simp_all add: greedy_exact_inv_def)
  have "f \<in> insert blank_food (set todo)"
    using scan_loop_pick [of todo blank_food 0 0] scan by simp
  then have f: "0 \<le> kcal f" "total_kcal + kcal f \<le> INT_MAX"
    using todo foods budget by (auto simp: blank_food_def valid_food_def)
  have "is_int (result_cal + kcal f)"
    using cal f by (simp add: is_int_def INT_MIN_def)
  then have wrap: "wrap_int (result_cal + kcal f) = result_cal + kcal f"
    by (rule wrap_int_id)
  have todo': "set (erase_at index todo) \<subseteq> set foods"
    using set_erase_at [of index todo] todo by blast
  show ?thesis
    using cal f todo' wrap
    by (simp add: s greedy_body_def scan greedy_exact_inv_def)
qed

lemma greedy_iter_exact_inv:
  assumes "total_kcal \<le> INT_MAX"
    and "\<forall>f \<in> set foods. valid_food f \<and> total_kcal + kcal f \<le> INT_MAX"
    and "greedy_exact_inv foods total_kcal s"
  shows "greedy_exact_inv foods total_kcal ((greedy_body total_kcal ^^ j) s)"
  by (induction j) (simp_all add: assms greedy_body_exact_inv [OF assms(1,2)])

text \<open>
  C3 (amended). For every candidate sequence and every budget \<open>0 \<le> total_kcal\<close>, the
  \<^verbatim>\<open>int\<close> sum of the calories of the records returned by \<^verbatim>\<open>greedy_max_protein\<close>, as
  \<^verbatim>\<open>sum_food_vector\<close> computes it, does not exceed \<^verbatim>\<open>total_kcal\<close>. When moreover no
  addition can overflow, that is \<open>total_kcal + kcal r \<le> INT_MAX\<close> for every (valid)
  candidate \<open>r\<close>, the sum of the calories of the returned records does not exceed
  \<^verbatim>\<open>total_kcal\<close>.
\<close>

theorem greedy_within_budget:
  assumes "0 \<le> total_kcal"
  shows "fst (sum_food_vector (greedy_max_protein foods total_kcal)) \<le> total_kcal \<and>
         (total_kcal \<le> INT_MAX \<and>
          (\<forall>f \<in> set foods. valid_food f \<and> total_kcal + kcal f \<le> INT_MAX) \<longrightarrow>
          sum_list (map kcal (greedy_max_protein foods total_kcal)) \<le> total_kcal)"
proof (intro conjI impI)
  have "greedy_inv total_kcal (foods, [], 0)"
    using assms by (simp add: greedy_inv_def sum_food_vector_Nil)
  then have "greedy_inv total_kcal ((greedy_body total_kcal ^^ length foods) (foods, [], 0))"
    by (rule greedy_iter_inv)
  then show "fst (sum_food_vector (greedy_max_protein foods total_kcal)) \<le> total_kcal"
    by (simp add: greedy_inv_def greedy_max_protein_def greedy_loop_iter)
next
  assume h: "total_kcal \<le> INT_MAX \<and>
    (\<forall>f \<in> set foods. valid_food f \<and> total_kcal + kcal f \<le> INT_MAX)"
  have "greedy_exact_inv foods total_kcal (foods, [], 0)"
    using assms by (simp add: greedy_exact_inv_def)
  then have "greedy_exact_inv foods total_kcal
      ((greedy_body total_kcal ^^ length foods) (foods, [], 0))"
    using h by (intro greedy_iter_exact_inv) simp_all
  then show "sum_list (map kcal (greedy_max_protein foods total_kcal)) \<le> total_kcal"
    by (simp add: greedy_exact_inv_def greedy_max_protein_def greedy_loop_iter)
qed

theorem greedy_within_budget_witness:
  "(0::int) \<le> 400 \<and> (400::int) \<le> INT_MAX \<and>
   list_all (\<lambda>f. valid_food f \<and> 400 + kcal f \<le> INT_MAX)
     [sample_food 200 20, sample_food 300 25, sample_food 150 10] \<and>
   sum_list (map kcal
     (greedy_max_protein [sample_food 200 20, sample_food 300 25, sample_food 150 10] 400))
   \<le> 400"
proof -
  have h: "(0::int) \<le> 400" by simp
  have run: "greedy_max_protein [sample_food 200 20, sample_food 300 25, sample_food 150 10] 400
      = [sample_food 300 25]"
    by (simp add: greedy_max_protein_def greedy_body_def erase_at_def blank_food_def
          sample_food_def wrap_int_def)
  show ?thesis
    using h run greedy_within_budget [OF h,
      of "[sample_food 200 20, sample_food 300 25, sample_food 150 10]"]
    by (simp add: INT_MAX_def valid_food_def sample_food_def)
qed

text \<open>
  With a negative budget nothing is pushed, and the empty result sums to \<open>0\<close>, which is
  above the budget: the claim without a restriction on the sign fails at \<open>-1\<close>. With the
  budget \<open>INT_MAX\<close> and candidates of \<open>2147483647\<close> and \<open>1\<close> kcal, the second addition
  wraps around to \<open>INT_MIN\<close>, both candidates are returned, and their calories are above
  the budget.
\<close>

theorem greedy_within_budget_counterexample:
  "greedy_max_protein [sample_food 5 3] (- 1) = [] \<and>
   \<not> sum_list (map kcal (greedy_max_protein [sample_food 5 3] (- 1))) \<le> - 1 \<and>
   greedy_max_protein [sample_food 2147483647 5, sample_food 1 3] 2147483647 =
     [sample_food 2147483647 5, sample_food 1 3] \<and>
   \<not> sum_list (map kcal
        (greedy_max_protein [sample_food 2147483647 5, sample_food 1 3] 2147483647))
      \<le> 2147483647"
  by (simp add: greedy_max_protein_def greedy_body_def erase_at_def blank_food_def
        sample_food_def wrap_int_def)

text \<open>
  When every candidate has positive protein the placeholder is never kept, and the result
  consists of candidates.
\<close>

lemma scan_loop_positive:
  "\<exists>x \<in> set xs. protein_g f < protein_g x \<Longrightarrow> fst (scan_loop xs (f, i, c)) \<in> set xs"
proof (induction xs arbitrary: f i c)
  case Nil
  then show ?case by simp
next
  case (Cons food rest)
  show ?case
  proof (cases "protein_g food > protein_g f")
    case True
    then show ?thesis
      using scan_loop_pick [of rest food c "c + 1"] by auto
  next
    case False
    with Cons.prems have "\<exists>x \<in> set rest. protein_g f < protein_g x" by auto
    then have "fst (scan_loop rest (f, i, c + 1)) \<in> set rest"
      by (rule Cons.IH)
    with False show ?thesis by simp
  qed
qed

lemma greedy_loop_subset:
  assumes pos: "\<forall>f \<in> set foods. 0 < protein_g f"
  shows "set todo \<subseteq> set foods \<Longrightarrow> set result \<subseteq> set foods \<Longrightarrow>
     set (greedy_loop total_kcal (todo, result, result_cal)) \<subseteq> set foods"
proof (induction total_kcal "(todo, result, result_cal)" arbitrary: todo result result_cal
       rule: greedy_loop.induct)
  case (1 total_kcal todo result result_cal)
  show ?case
  proof (cases "todo = []")
    case True
    with "1.prems" show ?thesis by simp
  next
    case False
    obtain f index counter where scan: "scan_loop todo (blank_food, 0, 0) = (f, index, counter)"
      by (cases "scan_loop todo (blank_food, 0, 0)")
    obtain x where "x \<in> set todo" using False by (cases todo) auto
    with "1.prems"(1) pos have "\<exists>x \<in> set todo. protein_g blank_food < protein_g x"
      by (auto simp: blank_food_def)
    then have "fst (scan_loop todo (blank_food, 0, 0)) \<in> set todo"
      by (rule scan_loop_positive)
    with scan "1.prems"(1) have f: "f \<in> set foods" by auto
    have todo': "set (erase_at index todo) \<subseteq> set foods"
      using set_erase_at [of index todo] "1.prems"(1) by blast
    obtain todo' result' result_cal'
      where body: "greedy_body total_kcal (todo, result, result_cal) = (todo', result', result_cal')"
      by (cases "greedy_body total_kcal (todo, result, result_cal)")
    with scan have "todo' = erase_at index todo" "set result' \<subseteq> insert f (set result)"
      by (auto simp: greedy_body_def split: if_splits)
    with todo' f "1.prems"(2) have sub: "set todo' \<subseteq> set foods" "set result' \<subseteq> set foods"
      by auto
    have "set (greedy_loop total_kcal (todo', result', result_cal')) \<subseteq> set foods"
      using "1.hyps" [OF False body sub] .
    with False body show ?thesis by simp
  qed
qed

lemma greedy_subset_positive_protein:
  "\<forall>f \<in> set foods. 0 < protein_g f \<Longrightarrow> set (greedy_max_protein foods total_kcal) \<subseteq> set foods"
  unfolding greedy_max_protein_def by (rule greedy_loop_subset) simp_all

text \<open>
  C2 fails on the code. When no record of the working copy has positive protein, the scan
  keeps the placeholder \<^verbatim>\<open>f\<close>; the first record is erased, and the placeholder itself is
  pushed to the result. For the single candidate with 5 kcal and no protein and the budget
  10, the result holds the placeholder, which is not a candidate.
\<close>

theorem greedy_returns_placeholder:
  "greedy_max_protein [sample_food 5 0] 10 = [blank_food] \<and>
   blank_food \<notin> set [sample_food 5 0]"
  by (simp add: greedy_max_protein_def greedy_body_def erase_at_def blank_food_def
        sample_food_def wrap_int_def)

section \<open>The loop test of \<^verbatim>\<open>exhaustive_max_protein\<close>\<close>

declare bit_length.simps [simp del]

lemma bit_length_lower: "0 < b \<Longrightarrow> 2 ^ (bit_length b - 1) \<le> b"
proof (induction b rule: bit_length.induct)
  case (1 b)
  show ?case
  proof (cases "b div 2 = 0")
    case True
    with "1.prems" have "b = 1" by (simp add: div_eq_0_iff) 
    then show ?thesis by (simp add: bit_length.simps [of "Suc 0"] bit_length.simps [of 0])
  next
    case False
    then have pos: "0 < b div 2" by simp
    have ih: "2 ^ (bit_length (b div 2) - 1) \<le> b div 2"
      using "1.IH" "1.prems" pos by simp
    have bl: "bit_length b = Suc (bit_length (b div 2))"
      using "1.prems" by (simp add: bit_length.simps [of b])
    have "0 < bit_length (b div 2)"
      using pos by (simp add: bit_length.simps [of "b div 2"])
    then have "bit_length b - 1 = Suc (bit_length (b div 2) - 1)"
      using bl by simp
    then have "(2::nat) ^ (bit_length b - 1) = 2 * 2 ^ (bit_length (b div 2) - 1)"
      by simp
    also have "\<dots> \<le> 2 * (b div 2)"
      using ih by simp
    also have "\<dots> \<le> b" by simp
    finally show ?thesis .
  qed
qed

lemma round_down_ge:
  fixes b :: nat
  assumes "2 ^ k \<le> b" and "2 ^ e \<le> b"
  shows "2 ^ k \<le> (b div 2 ^ e) * 2 ^ e"
proof (cases "e \<le> k")
  case True
  then have k: "(2::nat) ^ k = 2 ^ (k - e) * 2 ^ e"
    by (simp flip: power_add)
  have "2 ^ (k - e) * 2 ^ e \<le> b"
    using assms(1) k by simp
  then have "(2 ^ (k - e) * 2 ^ e) div 2 ^ e \<le> b div 2 ^ e"
    by (rule div_le_mono)
  then have "(2::nat) ^ (k - e) \<le> b div 2 ^ e"
    by simp
  then have "(2::nat) ^ (k - e) * 2 ^ e \<le> (b div 2 ^ e) * 2 ^ e"
    by (rule mult_le_mono1)
  with k show ?thesis by simp
next
  case False
  then have ke: "(2::nat) ^ k \<le> 2 ^ e"
    by (simp add: power_increasing)
  have "1 \<le> b div 2 ^ e"
    using assms(2) by (simp add: div_greater_zero_iff Suc_le_eq)
  then have "1 * (2::nat) ^ e \<le> (b div 2 ^ e) * 2 ^ e"
    by (rule mult_le_mono1)
  then have "(2::nat) ^ e \<le> (b div 2 ^ e) * 2 ^ e"
    by simp
  with ke show ?thesis by (rule order_trans)
qed

lemma uint64_to_double_ge:
  assumes "2 ^ k \<le> b"
  shows "2 ^ k \<le> uint64_to_double b"
proof (cases "b < 2 ^ 53")
  case True
  with assms show ?thesis by (simp add: uint64_to_double_def)
next
  case False
  define e where "e = bit_length b - 53"
  have pos: "0 < b" using False by (cases "b = 0") simp_all
  have "(2::nat) ^ e \<le> 2 ^ (bit_length b - 1)"
    unfolding e_def by (rule power_increasing) simp_all
  also have "\<dots> \<le> b"
    by (rule bit_length_lower [OF pos])
  finally have e: "2 ^ e \<le> b" .
  have low: "2 ^ k \<le> (b div 2 ^ e) * 2 ^ e"
    by (rule round_down_ge [OF assms e])
  have "(b div 2 ^ e) * 2 ^ e \<le> uint64_to_double b"
    using False by (simp add: uint64_to_double_def Let_def e_def)
  with low show ?thesis by linarith
qed

lemma uint64_to_double_exact: "b < 2 ^ 53 \<Longrightarrow> uint64_to_double b = b"
  by (simp add: uint64_to_double_def)

lemma bits_lt_power_nat:
  "bits_lt_power bits (int n) \<longleftrightarrow> uint64_to_double bits < 2 ^ n"
proof -
  have "pow_2 (int n) = of_nat (2 ^ n)"
    by (simp add: pow_2_def)
  then have "bits_lt_power bits (int n) \<longleftrightarrow>
      (of_nat (uint64_to_double bits) :: rat) < of_nat (2 ^ n)"
    by (simp add: bits_lt_power_def)
  then show ?thesis
    by (simp only: of_nat_less_iff)
qed

lemma bits_lt_power_bound: "bits_lt_power bits (int n) \<Longrightarrow> bits < 2 ^ n"
  using uint64_to_double_ge [of n bits] by (auto simp: bits_lt_power_nat not_le [symmetric])

lemma bits_lt_power_small:
  "n \<le> 53 \<Longrightarrow> bits_lt_power bits (int n) \<longleftrightarrow> bits < 2 ^ n"
proof
  assume "bits_lt_power bits (int n)"
  then show "bits < 2 ^ n" by (rule bits_lt_power_bound)
next
  assume n: "n \<le> 53" and lt: "bits < 2 ^ n"
  have "(2::nat) ^ n \<le> 2 ^ 53"
    by (rule power_increasing) (use n in simp_all)
  with lt have "bits < 2 ^ 53" by linarith
  with lt show "bits_lt_power bits (int n)"
    by (simp add: bits_lt_power_nat uint64_to_double_exact)
qed

section \<open>The loops of \<^verbatim>\<open>exhaustive_max_protein\<close>\<close>

declare candidate_loop.simps [simp del]

lemma candidate_loop_filter:
  "candidate_loop foods (int n) bits j candidate =
     candidate @ map ((!) foods) (filter (bit bits) [j..<n])"
proof (induction "n - j" arbitrary: j candidate)
  case 0
  then show ?case by (simp add: candidate_loop.simps [of _ _ _ j])
next
  case (Suc d)
  then have lt: "j < n" and d: "d = n - (j + 1)" by simp_all
  have test: "(bits div 2 ^ j) mod 2 = 1 \<longleftrightarrow> bit bits j"
    by (simp add: bit_iff_odd odd_iff_mod_2_eq_one)
  have upt: "[j..<n] = j # [j + 1..<n]"
    using lt by (simp add: upt_conv_Cons)
  show ?case
    using lt Suc.hyps(1) [OF d] test
    by (simp add: candidate_loop.simps [of _ _ _ j] upt del: upt_Suc)
qed

lemma exhaustive_loop_run:
  assumes "bits \<le> m" and "m < 2 ^ 64"
    and "\<forall>b. bits \<le> b \<and> b < m \<longrightarrow> bits_lt_power b n"
    and "\<not> bits_lt_power m n"
  shows "exhaustive_loop foods total_kcal n bits best =
    Some (foldl (\<lambda>best b. update_best total_kcal (candidate_loop foods n b 0 []) best)
            best [bits..<m])"
  using assms
proof (induction "m - bits" arbitrary: bits best)
  case 0
  then have "bits = m" by simp
  with "0.prems"(4) show ?case
    by (simp add: exhaustive_loop.simps [of _ _ _ m])
next
  case (Suc d)
  then have lt: "bits < m" and d: "d = m - (bits + 1)" by simp_all
  have guard: "bits_lt_power bits n"
    using Suc.prems(3) lt by simp
  have nowrap: "(bits + 1) mod 2 ^ 64 = bits + 1"
    using lt Suc.prems(2) by simp
  have upt: "[bits..<m] = bits # [bits + 1..<m]"
    using lt by (simp add: upt_conv_Cons)
  have ih: "exhaustive_loop foods total_kcal n (bits + 1) best' =
    Some (foldl (\<lambda>best b. update_best total_kcal (candidate_loop foods n b 0 []) best)
            best' [bits + 1..<m])" for best'
    by (rule Suc.hyps(1) [OF d]) (use lt Suc.prems in simp_all)
  have "exhaustive_loop foods total_kcal n bits best =
      exhaustive_loop foods total_kcal n ((bits + 1) mod 2 ^ 64)
        (update_best total_kcal (candidate_loop foods n bits 0 []) best)"
    by (subst exhaustive_loop.simps) (simp only: guard if_True)
  also have "\<dots> = Some (foldl
      (\<lambda>best b. update_best total_kcal (candidate_loop foods n b 0 []) best)
      (update_best total_kcal (candidate_loop foods n bits 0 []) best) [bits + 1..<m])"
    by (simp only: nowrap ih)
  also have "\<dots> = Some (foldl
      (\<lambda>best b. update_best total_kcal (candidate_loop foods n b 0 []) best)
      best [bits..<m])"
    by (simp only: upt foldl_Cons)
  finally show ?case .
qed

lemma size_t_to_int_small: "k < 2 ^ 31 \<Longrightarrow> size_t_to_int k = int k"
proof -
  assume "k < 2 ^ 31"
  then have "int k < 2 ^ 31" by (simp add: nat_less_iff flip: of_nat_less_iff)
  then have "0 \<le> int k + 2 ^ 31" "int k + 2 ^ 31 < 2 ^ 32" by simp_all
  then have "(int k + 2 ^ 31) mod 2 ^ 32 = int k + 2 ^ 31"
    by (rule mod_pos_pos_trivial)
  then show ?thesis by (simp add: size_t_to_int_def)
qed

lemma candidate_of_filter:
  "length foods < 2 ^ 31 \<Longrightarrow>
   candidate_of foods bits = map ((!) foods) (filter (bit bits) [0..<length foods])"
  by (simp add: candidate_of_def size_t_to_int_small candidate_loop_filter)

lemma candidate_of_subset:
  assumes "length foods < 2 ^ 31"
  shows "set (candidate_of foods bits) \<subseteq> set foods"
  unfolding candidate_of_filter [OF assms] by auto

lemma loop_stops_before:
  assumes "\<not> bits_lt_power M n"
  shows "\<exists>m \<le> M. (\<forall>b. 0 \<le> b \<and> b < m \<longrightarrow> bits_lt_power b n) \<and> \<not> bits_lt_power m n"
proof -
  define m where "m = (LEAST b. \<not> bits_lt_power b n)"
  have "m \<le> M"
    unfolding m_def using assms by (rule Least_le)
  moreover have "\<not> bits_lt_power m n"
    unfolding m_def using assms by (rule LeastI)
  moreover have "bits_lt_power b n" if "b < m" for b
    using not_less_Least [of b "\<lambda>b. \<not> bits_lt_power b n"] that
    unfolding m_def by blast
  ultimately show ?thesis by blast
qed

lemma exhaustive_max_protein_returns_before:
  assumes "length foods < 64" and "M < 2 ^ 64"
    and "\<not> bits_lt_power M (int (length foods))"
  shows "\<exists>m \<le> M.
    exhaustive_max_protein foods total_kcal = Some (Inr (best_after foods total_kcal m))"
proof -
  let ?N = "length foods"
  have small: "?N < 2 ^ 31" using assms(1) by simp
  have n: "size_t_to_int ?N = int ?N"
    by (rule size_t_to_int_small [OF small])
  obtain m where m: "m \<le> M"
    and run: "\<forall>b. 0 \<le> b \<and> b < m \<longrightarrow> bits_lt_power b (int ?N)"
    and stop: "\<not> bits_lt_power m (int ?N)"
    using loop_stops_before [OF assms(3)] by blast
  from m assms(2) have m64: "m < 2 ^ 64" by linarith
  have "exhaustive_loop foods total_kcal (int ?N) 0 [] =
      Some (foldl (\<lambda>best b. update_best total_kcal (candidate_loop foods (int ?N) b 0 []) best)
            [] [0..<m])"
    by (rule exhaustive_loop_run [OF _ m64 run stop]) simp
  then have "exhaustive_loop foods total_kcal (int ?N) 0 [] =
      Some (best_after foods total_kcal m)"
    by (simp add: best_after_def candidate_of_def n)
  then have "exhaustive_max_protein foods total_kcal =
      Some (Inr (best_after foods total_kcal m))"
    using assms(1) by (simp add: exhaustive_max_protein_def n)
  with m show ?thesis by blast
qed

lemma exhaustive_max_protein_returns:
  assumes "length foods < 64"
  shows "\<exists>m \<le> 2 ^ length foods.
    exhaustive_max_protein foods total_kcal = Some (Inr (best_after foods total_kcal m))"
proof -
  have top: "\<not> bits_lt_power (2 ^ length foods) (int (length foods))"
    using bits_lt_power_bound [of "2 ^ length foods" "length foods"] by auto
  have "(2::nat) ^ length foods < 2 ^ 64"
    by (rule power_strict_increasing) (use assms in simp_all)
  then show ?thesis
    by (rule exhaustive_max_protein_returns_before [OF assms _ top])
qed

lemma exhaustive_max_protein_small:
  assumes "length foods \<le> 53"
  shows "exhaustive_max_protein foods total_kcal =
    Some (Inr (best_after foods total_kcal (2 ^ length foods)))"
proof -
  let ?N = "length foods"
  have small: "?N < 2 ^ 31" using assms by simp
  have n: "size_t_to_int ?N = int ?N"
    by (rule size_t_to_int_small [OF small])
  have run: "\<forall>b. 0 \<le> b \<and> b < 2 ^ ?N \<longrightarrow> bits_lt_power b (int ?N)"
    and stop: "\<not> bits_lt_power (2 ^ ?N) (int ?N)"
    using assms by (simp_all add: bits_lt_power_small)
  have "(2::nat) ^ ?N < 2 ^ 64"
    by (rule power_strict_increasing) (use assms in simp_all)
  then have "exhaustive_loop foods total_kcal (int ?N) 0 [] =
      Some (foldl (\<lambda>best b. update_best total_kcal (candidate_loop foods (int ?N) b 0 []) best)
            [] [0..<2 ^ ?N])"
    using run stop by (intro exhaustive_loop_run) simp_all
  then have "exhaustive_loop foods total_kcal (int ?N) 0 [] =
      Some (best_after foods total_kcal (2 ^ ?N))"
    by (simp add: best_after_def candidate_of_def n)
  then show ?thesis
    using assms by (simp add: exhaustive_max_protein_def n)
qed

lemma best_after_Suc:
  "best_after foods total_kcal (Suc m) =
     update_best total_kcal (candidate_of foods m) (best_after foods total_kcal m)"
  by (simp add: best_after_def)

lemma best_after_0: "best_after foods total_kcal 0 = []"
  by (simp add: best_after_def)

text \<open>
  C6 (amended). For a candidate sequence of fewer than \<open>2^31\<close> records, whose size is the
  \<^verbatim>\<open>int\<close> \<open>n\<close> that the code tests, \<^verbatim>\<open>exhaustive_max_protein\<close> fails the assertion exactly
  when the size is at least 64, and for a size below 64 it returns a result.
\<close>

theorem exhaustive_assertion:
  assumes "length foods < 2 ^ 31"
  shows "(exhaustive_max_protein foods total_kcal = Some (Inl AssertionFailure)
            \<longleftrightarrow> 64 \<le> length foods) \<and>
         (length foods < 64 \<longrightarrow>
            (\<exists>best. exhaustive_max_protein foods total_kcal = Some (Inr best)))"
proof (intro conjI impI)
  have no_error: "map_option Inr x \<noteq> Some (Inl AssertionFailure)"
    for x :: "FoodVector option"
    by (cases x) simp_all
  have "exhaustive_max_protein foods total_kcal = Some (Inl AssertionFailure)
      \<longleftrightarrow> 64 \<le> size_t_to_int (length foods)"
    using no_error [of "exhaustive_loop foods total_kcal (size_t_to_int (length foods)) 0 []"]
    by (auto simp: exhaustive_max_protein_def Let_def)
  then show "exhaustive_max_protein foods total_kcal = Some (Inl AssertionFailure)
      \<longleftrightarrow> 64 \<le> length foods"
    by (simp add: size_t_to_int_small [OF assms])
  show "\<exists>best. exhaustive_max_protein foods total_kcal = Some (Inr best)"
    if "length foods < 64"
    using exhaustive_max_protein_returns [OF that] by blast
qed

theorem exhaustive_assertion_witness:
  "length (replicate 64 (sample_food 1 1)) < 2 ^ 31 \<and>
   exhaustive_max_protein (replicate 64 (sample_food 1 1)) 5 = Some (Inl AssertionFailure) \<and>
   length [sample_food 1 1] < 64 \<and>
   (\<exists>best. exhaustive_max_protein [sample_food 1 1] 5 = Some (Inr best))"
proof -
  have h1: "length (replicate 64 (sample_food 1 1)) < 2 ^ 31" by simp
  have h2: "length [sample_food 1 1] < 2 ^ 31" by simp
  show ?thesis
    using h1 exhaustive_assertion [OF h1, of 5] exhaustive_assertion [OF h2, of 5]
    by simp
qed

text \<open>
  The claim as stated, for every size, fails at \<open>2^31\<close> records: the size converts to the
  \<^verbatim>\<open>int\<close> \<open>-2^31\<close>, the assertion \<open>n < 64\<close> holds, and the empty sequence is returned.
\<close>

theorem exhaustive_assertion_counterexample:
  "64 \<le> length (replicate (2 ^ 31) (sample_food 1 1)) \<and>
   exhaustive_max_protein (replicate (2 ^ 31) (sample_food 1 1)) 5 = Some (Inr [])"
  by (simp add: exhaustive_max_protein_def size_t_to_int_def exhaustive_loop.simps
        bits_lt_power_def pow_2_def uint64_to_double_def)

section \<open>The tracked best of \<^verbatim>\<open>exhaustive_max_protein\<close>\<close>

lemma candidate_of_0: "length foods < 2 ^ 31 \<Longrightarrow> candidate_of foods 0 = []"
  by (simp add: candidate_of_filter)

lemma mask_has_bit:
  fixes b :: nat
  assumes "0 < b" and "b < 2 ^ N"
  shows "\<exists>j < N. bit b j"
proof (rule ccontr)
  assume "\<not> (\<exists>j < N. bit b j)"
  then have "take_bit N b = 0"
    by (intro bit_eqI) (simp add: bit_take_bit_iff)
  moreover have "take_bit N b = b"
    using assms(2) by (simp add: take_bit_nat_eq_self)
  ultimately show False using assms(1) by simp
qed

lemma candidate_of_nonempty:
  assumes "length foods < 2 ^ 31" and "0 < b" and "b < 2 ^ length foods"
  shows "candidate_of foods b \<noteq> []"
proof -
  obtain j where "j < length foods" "bit b j"
    using mask_has_bit [OF assms(2,3)] by blast
  then have "j \<in> set (filter (bit b) [0..<length foods])" by simp
  then have "filter (bit b) [0..<length foods] \<noteq> []"
    by (metis empty_iff list.set(1))
  then show ?thesis
    by (simp add: candidate_of_filter [OF assms(1)])
qed

lemma update_best_cases:
  "update_best total_kcal candidate best =
     (if fst (sum_food_vector candidate) \<le> total_kcal \<and>
         (best = [] \<or> snd (sum_food_vector best) < snd (sum_food_vector candidate))
      then candidate else best)"
  by (auto simp: update_best_def split: prod.splits)

lemma best_after_step:
  assumes nonempty: "\<forall>m \<in> {1..<Suc b}. candidate_of foods m \<noteq> []"
    and b: "1 \<le> b"
    and inv: "if \<exists>m \<in> {1..<b}. feasible foods total_kcal m
              then \<exists>m. first_best foods total_kcal b m \<and> best = candidate_of foods m
              else best = []"
  shows "if \<exists>m \<in> {1..<Suc b}. feasible foods total_kcal m
         then \<exists>m. first_best foods total_kcal (Suc b) m \<and>
                update_best total_kcal (candidate_of foods b) best = candidate_of foods m
         else update_best total_kcal (candidate_of foods b) best = []"
proof (cases "feasible foods total_kcal b")
  case False
  then have upd: "update_best total_kcal (candidate_of foods b) best = best"
    by (simp add: update_best_cases feasible_def)
  have ex: "(\<exists>m \<in> {1..<Suc b}. feasible foods total_kcal m) \<longleftrightarrow>
            (\<exists>m \<in> {1..<b}. feasible foods total_kcal m)"
    using False by (auto simp: less_Suc_eq)
  have fb: "first_best foods total_kcal b m \<Longrightarrow> first_best foods total_kcal (Suc b) m" for m
    using False by (auto simp: first_best_def less_Suc_eq)
  show ?thesis
    using inv fb unfolding upd ex by (auto split: if_splits)
next
  case True
  have bin: "b \<in> {1..<Suc b}" using b by simp
  show ?thesis
  proof (cases "\<exists>m \<in> {1..<b}. feasible foods total_kcal m")
    case False
    with inv have "best = []" by simp
    then have upd: "update_best total_kcal (candidate_of foods b) best = candidate_of foods b"
      using True by (simp add: update_best_cases feasible_def)
    have "first_best foods total_kcal (Suc b) b"
      using True False b by (auto simp: first_best_def less_Suc_eq)
    with bin True upd show ?thesis by auto
  next
    case ex: True
    with inv obtain m where m: "first_best foods total_kcal b m"
      and best: "best = candidate_of foods m" by auto
    from m have mb: "m \<in> {1..<b}" by (simp add: first_best_def)
    then have "candidate_of foods m \<noteq> []" using nonempty by simp
    with best have ne: "best \<noteq> []" by simp
    have pb: "snd (sum_food_vector best) = protein_of foods m"
      by (simp add: best protein_of_def)
    show ?thesis
    proof (cases "protein_of foods m < protein_of foods b")
      case True
      then have upd: "update_best total_kcal (candidate_of foods b) best = candidate_of foods b"
        using \<open>feasible foods total_kcal b\<close> pb
        by (simp add: update_best_cases feasible_def protein_of_def)
      have "first_best foods total_kcal (Suc b) b"
        unfolding first_best_def
      proof (intro conjI ballI impI)
        show "b \<in> {1..<Suc b}" by (rule bin)
        show "feasible foods total_kcal b" by fact
      next
        fix m' assume m': "m' \<in> {1..<Suc b}" "feasible foods total_kcal m'"
        show "protein_of foods m' \<le> protein_of foods b"
        proof (cases "m' = b")
          case False
          with m' have "m' \<in> {1..<b}" by auto
          with m m'(2) have "protein_of foods m' \<le> protein_of foods m"
            by (simp add: first_best_def)
          with True show ?thesis by linarith
        qed simp
        show "b \<le> m'" if "protein_of foods m' = protein_of foods b"
        proof (cases "m' = b")
          case False
          with m' have "m' \<in> {1..<b}" by auto
          with m m'(2) have "protein_of foods m' \<le> protein_of foods m"
            by (simp add: first_best_def)
          with True that show ?thesis by linarith
        qed simp
      qed
      with upd bin \<open>feasible foods total_kcal b\<close> show ?thesis by auto
    next
      case False
      then have upd: "update_best total_kcal (candidate_of foods b) best = best"
        using ne pb by (simp add: update_best_cases protein_of_def)
      have "first_best foods total_kcal (Suc b) m"
        unfolding first_best_def
      proof (intro conjI ballI impI)
        show "m \<in> {1..<Suc b}" using mb by simp
        show "feasible foods total_kcal m" using m by (simp add: first_best_def)
      next
        fix m' assume m': "m' \<in> {1..<Suc b}" "feasible foods total_kcal m'"
        show "protein_of foods m' \<le> protein_of foods m"
        proof (cases "m' = b")
          case True
          with False show ?thesis by simp
        next
          case False
          with m' have "m' \<in> {1..<b}" by auto
          with m m'(2) show ?thesis by (simp add: first_best_def)
        qed
        show "m \<le> m'" if "protein_of foods m' = protein_of foods m"
        proof (cases "m' = b")
          case True
          with mb show ?thesis by simp
        next
          case False
          with m' have "m' \<in> {1..<b}" by auto
          with m m'(2) that show ?thesis by (simp add: first_best_def)
        qed
      qed
      with upd best bin \<open>feasible foods total_kcal b\<close> show ?thesis by auto
    qed
  qed
qed

lemma best_after_first_best:
  assumes small: "length foods < 2 ^ 31"
  shows "b < 2 ^ length foods \<Longrightarrow>
    (if \<exists>m \<in> {1..<Suc b}. feasible foods total_kcal m
     then \<exists>m. first_best foods total_kcal (Suc b) m \<and>
            best_after foods total_kcal (Suc b) = candidate_of foods m
     else best_after foods total_kcal (Suc b) = [])"
proof (induction b)
  case 0
  have "best_after foods total_kcal (Suc 0) = []"
    by (simp add: best_after_Suc best_after_0 update_best_cases candidate_of_0 [OF small])
  then show ?case by simp
next
  case (Suc b)
  have ne: "\<forall>m \<in> {1..<Suc (Suc b)}. candidate_of foods m \<noteq> []"
  proof
    fix m assume "m \<in> {1..<Suc (Suc b)}"
    with Suc.prems have "0 < m" "m < 2 ^ length foods" by simp_all
    then show "candidate_of foods m \<noteq> []"
      by (rule candidate_of_nonempty [OF small])
  qed
  have inv: "if \<exists>m \<in> {1..<Suc b}. feasible foods total_kcal m
     then \<exists>m. first_best foods total_kcal (Suc b) m \<and>
            best_after foods total_kcal (Suc b) = candidate_of foods m
     else best_after foods total_kcal (Suc b) = []"
    using Suc.IH Suc.prems by simp
  show ?case
    unfolding best_after_Suc [of foods total_kcal "Suc b"]
    by (rule best_after_step [OF ne _ inv]) simp
qed

lemma best_after_tried:
  "best_after foods total_kcal m = [] \<or>
   (\<exists>b < m. best_after foods total_kcal m = candidate_of foods b \<and>
            feasible foods total_kcal b)"
proof (induction m)
  case 0
  show ?case by (simp add: best_after_0)
next
  case (Suc m)
  show ?case
  proof (cases "update_best total_kcal (candidate_of foods m) (best_after foods total_kcal m)
                 = best_after foods total_kcal m")
    case True
    then have "best_after foods total_kcal (Suc m) = best_after foods total_kcal m"
      by (simp add: best_after_Suc)
    with Suc.IH show ?thesis by (auto simp: less_Suc_eq)
  next
    case False
    then have "best_after foods total_kcal (Suc m) = candidate_of foods m \<and>
        feasible foods total_kcal m"
      by (auto simp: best_after_Suc update_best_cases feasible_def split: if_splits)
    then show ?thesis by auto
  qed
qed

section \<open>Masks and subsequences\<close>

lemma pick_nths: "map ((!) xs) (filter P [0..<length xs]) = nths xs {j. P j}"
proof (induction xs rule: rev_induct)
  case Nil
  show ?case by simp
next
  case (snoc x xs)
  have "map ((!) (xs @ [x])) (filter P [0..<length xs]) =
        map ((!) xs) (filter P [0..<length xs])"
    by (rule map_cong) (auto simp: nth_append)
  then show ?case
    using snoc.IH by (simp add: nths_append)
qed

lemma candidate_of_nths:
  "length foods < 2 ^ 31 \<Longrightarrow> candidate_of foods bits = nths foods {j. bit bits j}"
  by (simp add: candidate_of_filter pick_nths)

lemma candidate_of_subseq:
  "length foods < 2 ^ 31 \<Longrightarrow> subseq (candidate_of foods bits) foods"
  unfolding subseq_conv_nths by (auto simp: candidate_of_nths)

lemma mask_of_set: "\<exists>m < (2::nat) ^ n. \<forall>j < n. bit m j \<longleftrightarrow> j \<in> A"
proof (induction n)
  case 0
  show ?case by simp
next
  case (Suc n)
  then obtain m :: nat where m: "m < 2 ^ n" and bits: "\<forall>j < n. bit m j \<longleftrightarrow> j \<in> A"
    by blast
  have nb: "\<not> bit m n"
    using m by (simp add: bit_iff_odd)
  show ?case
  proof (cases "n \<in> A")
    case True
    have "set_bit n m = m + 2 ^ n"
      using nb by (simp add: set_bit_eq)
    with m have "set_bit n m < 2 ^ Suc n" by simp
    moreover have "\<forall>j < Suc n. bit (set_bit n m) j \<longleftrightarrow> j \<in> A"
      using bits True by (auto simp: bit_set_bit_iff less_Suc_eq)
    ultimately show ?thesis by blast
  next
    case False
    have "m < 2 ^ Suc n" using m by simp
    moreover have "\<forall>j < Suc n. bit m j \<longleftrightarrow> j \<in> A"
      using bits False nb by (auto simp: less_Suc_eq)
    ultimately show ?thesis by blast
  qed
qed

lemma nths_cong_below:
  "(\<And>j. j < length xs \<Longrightarrow> j \<in> A \<longleftrightarrow> j \<in> B) \<Longrightarrow> nths xs A = nths xs B"
  unfolding nths_def
  by (rule arg_cong [where f = "map fst"], rule filter_cong) (auto dest: set_zip_rightD)

lemma subseq_is_candidate:
  assumes "length foods < 2 ^ 31" and "subseq ys foods"
  shows "\<exists>m < 2 ^ length foods. ys = candidate_of foods m"
proof -
  obtain A where A: "ys = nths foods A"
    using assms(2) unfolding subseq_conv_nths by blast
  obtain m :: nat where m: "m < 2 ^ length foods"
    and bits: "\<forall>j < length foods. bit m j \<longleftrightarrow> j \<in> A"
    using mask_of_set [of "length foods" A] by blast
  have "nths foods A = nths foods {j. bit m j}"
    by (rule nths_cong_below) (use bits in simp)
  with A have "ys = candidate_of foods m"
    by (simp add: candidate_of_nths [OF assms(1)])
  with m show ?thesis by blast
qed

section \<open>Sums without overflow\<close>

text \<open>
  When the calories (the protein) of all candidates add up to at most \<open>INT_MAX\<close>, no sum
  over a subsequence of the candidates wraps around.
\<close>

lemma subseq_sum_le:
  fixes g :: "'a \<Rightarrow> int"
  shows "subseq ys xs \<Longrightarrow> \<forall>x \<in> set xs. 0 \<le> g x \<Longrightarrow>
    sum_list (map g ys) \<le> sum_list (map g xs)"
  by (induction rule: list_emb.induct) (auto intro: add_increasing intro!: sum_list_nonneg)

lemma subseq_kcal_exact:
  assumes "subseq ys foods" and "\<forall>f \<in> set foods. valid_food f"
    and "sum_list (map kcal foods) \<le> INT_MAX"
  shows "fst (sum_food_vector ys) = sum_list (map kcal ys)"
    and "0 \<le> sum_list (map kcal ys)"
proof -
  have nonneg: "\<forall>f \<in> set foods. 0 \<le> kcal f"
    using assms(2) by (simp add: valid_food_def)
  have sub: "set ys \<subseteq> set foods"
    using assms(1) by (auto dest: list_emb_set)
  have "sum_list (map kcal ys) \<le> sum_list (map kcal foods)"
    by (rule subseq_sum_le [OF assms(1) nonneg])
  with assms(3) have le: "sum_list (map kcal ys) \<le> INT_MAX" by linarith
  have ys: "\<forall>f \<in> set ys. 0 \<le> kcal f"
    using nonneg sub by blast
  show "fst (sum_food_vector ys) = sum_list (map kcal ys)"
    by (rule kcal_sum_exact [OF ys le])
  show "0 \<le> sum_list (map kcal ys)"
    using ys by (auto intro!: sum_list_nonneg)
qed

lemma subseq_protein_exact:
  assumes "subseq ys foods" and "\<forall>f \<in> set foods. valid_food f"
    and "sum_list (map protein_g foods) \<le> INT_MAX"
  shows "snd (sum_food_vector ys) = sum_list (map protein_g ys)"
    and "0 \<le> sum_list (map protein_g ys)"
proof -
  have nonneg: "\<forall>f \<in> set foods. 0 \<le> protein_g f"
    using assms(2) by (simp add: valid_food_def)
  have sub: "set ys \<subseteq> set foods"
    using assms(1) by (auto dest: list_emb_set)
  have "sum_list (map protein_g ys) \<le> sum_list (map protein_g foods)"
    by (rule subseq_sum_le [OF assms(1) nonneg])
  with assms(3) have le: "sum_list (map protein_g ys) \<le> INT_MAX" by linarith
  have ys: "\<forall>f \<in> set ys. 0 \<le> protein_g f"
    using nonneg sub by blast
  show "snd (sum_food_vector ys) = sum_list (map protein_g ys)"
    by (rule protein_sum_exact [OF ys le])
  show "0 \<le> sum_list (map protein_g ys)"
    using ys by (auto intro!: sum_list_nonneg)
qed

lemma feasible_exact:
  assumes "length foods < 2 ^ 31" and "\<forall>f \<in> set foods. valid_food f"
    and "sum_list (map kcal foods) \<le> INT_MAX"
  shows "feasible foods total_kcal bits \<longleftrightarrow>
    sum_list (map kcal (candidate_of foods bits)) \<le> total_kcal"
  unfolding feasible_def
  by (simp add: subseq_kcal_exact(1) [OF candidate_of_subseq [OF assms(1)] assms(2,3)])

lemma protein_of_exact:
  assumes "length foods < 2 ^ 31" and "\<forall>f \<in> set foods. valid_food f"
    and "sum_list (map protein_g foods) \<le> INT_MAX"
  shows "protein_of foods bits = sum_list (map protein_g (candidate_of foods bits))"
  unfolding protein_of_def
  by (simp add: subseq_protein_exact(1) [OF candidate_of_subseq [OF assms(1)] assms(2,3)])

section \<open>A negative budget\<close>

text \<open>
  C10 (amended). For a candidate sequence of fewer than 64 valid records whose calories
  add up to at most \<open>INT_MAX\<close> (so that no calorie sum wraps around) and a negative budget,
  \<^verbatim>\<open>exhaustive_max_protein\<close> returns normally, with the empty sequence: every trial
  subset, the empty one included, has a calorie sum of at least \<open>0\<close> and so is never
  accepted.
\<close>

theorem exhaustive_negative_budget:
  assumes "length foods < 64" and "total_kcal < 0" and "\<forall>f \<in> set foods. valid_food f"
    and "sum_list (map kcal foods) \<le> INT_MAX"
  shows "exhaustive_max_protein foods total_kcal = Some (Inr []) \<and>
         (\<forall>bits. \<not> feasible foods total_kcal bits)"
proof
  have small: "length foods < 2 ^ 31" using assms(1) by simp
  show none: "\<forall>bits. \<not> feasible foods total_kcal bits"
  proof
    fix bits
    have "0 \<le> sum_list (map kcal (candidate_of foods bits))"
      by (rule subseq_kcal_exact(2) [OF candidate_of_subseq [OF small] assms(3,4)])
    with assms(2) show "\<not> feasible foods total_kcal bits"
      by (simp add: feasible_exact [OF small assms(3,4)])
  qed
  obtain m where "exhaustive_max_protein foods total_kcal =
      Some (Inr (best_after foods total_kcal m))"
    using exhaustive_max_protein_returns [OF assms(1)] by blast
  moreover have "best_after foods total_kcal m = []"
    using best_after_tried [of foods total_kcal m] none by blast
  ultimately show "exhaustive_max_protein foods total_kcal = Some (Inr [])"
    by simp
qed

theorem exhaustive_negative_budget_witness:
  "length [sample_food 1 0, sample_food 2 3] < 64 \<and> (- 1::int) < 0 \<and>
   list_all valid_food [sample_food 1 0, sample_food 2 3] \<and>
   sum_list (map kcal [sample_food 1 0, sample_food 2 3]) \<le> INT_MAX \<and>
   exhaustive_max_protein [sample_food 1 0, sample_food 2 3] (- 1) = Some (Inr [])"
proof -
  have h1: "length [sample_food 1 0, sample_food 2 3] < 64" by simp
  have h2: "(- 1::int) < 0" by simp
  have h3: "\<forall>f \<in> set [sample_food 1 0, sample_food 2 3]. valid_food f"
    by (simp add: valid_food_def sample_food_def INT_MAX_def)
  have h4: "sum_list (map kcal [sample_food 1 0, sample_food 2 3]) \<le> INT_MAX"
    by (simp add: sample_food_def INT_MAX_def)
  show ?thesis
    using h1 h2 h3 h4 exhaustive_negative_budget [OF h1 h2 h3 h4] by simp
qed

text \<open>
  Without the bound on the calories the claim fails: for two valid candidates of
  \<open>2147483647\<close> and \<open>1\<close> kcal and the budget \<open>-1\<close>, the calorie sum of both wraps around to
  \<open>INT_MIN\<close>, which is within the budget, and both candidates are returned.
\<close>

theorem exhaustive_negative_budget_counterexample:
  "length [sample_food 2147483647 1, sample_food 1 1] < 64 \<and>
   list_all valid_food [sample_food 2147483647 1, sample_food 1 1] \<and>
   exhaustive_max_protein [sample_food 2147483647 1, sample_food 1 1] (- 1) =
     Some (Inr [sample_food 2147483647 1, sample_food 1 1])"
  by (simp add: exhaustive_max_protein_def size_t_to_int_def exhaustive_loop.simps
        bits_lt_power_def pow_2_def uint64_to_double_def update_best_def
        sum_food_vector_def sample_food_def candidate_loop.simps wrap_int_def
        valid_food_def INT_MAX_def)

section \<open>The result of \<^verbatim>\<open>exhaustive_max_protein\<close>\<close>

lemma exhaustive_small_result:
  assumes "length foods \<le> 53"
  shows "\<exists>best. exhaustive_max_protein foods total_kcal = Some (Inr best) \<and>
    (if \<exists>m \<in> {1..<2 ^ length foods}. feasible foods total_kcal m
     then \<exists>m. first_best foods total_kcal (2 ^ length foods) m \<and> best = candidate_of foods m
     else best = [])"
proof -
  have small: "length foods < 2 ^ 31" using assms by simp
  define b :: nat where "b = 2 ^ length foods - 1"
  have b: "Suc b = 2 ^ length foods" "b < 2 ^ length foods"
    by (simp_all add: b_def)
  have res: "exhaustive_max_protein foods total_kcal =
      Some (Inr (best_after foods total_kcal (Suc b)))"
    using exhaustive_max_protein_small [OF assms] b(1) by simp
  show ?thesis
    using res best_after_first_best [OF small b(2), of total_kcal]
    unfolding b(1) by simp
qed

text \<open>
  C4 (amended). \<^verbatim>\<open>*best\<close> is replaced by a trial subset exactly when the trial subset is
  feasible and \<^verbatim>\<open>*best\<close> is the empty sequence or has strictly less protein, calories
  and protein being the \<^verbatim>\<open>int\<close> sums that \<^verbatim>\<open>sum_food_vector\<close> computes. For a candidate
  sequence of at most 53 records (where the loop test is exact) and any budget, the
  function therefore returns the trial subset of the first non-zero mask, in increasing
  order, with the greatest protein among the feasible non-zero masks, and the empty
  sequence only when no non-zero mask is feasible. When the calories and the protein of
  all (valid) candidates add up to at most \<open>INT_MAX\<close>, these sums are the sums of the
  calories and of the protein of the trial subset.
\<close>

theorem exhaustive_first_best:
  assumes "length foods \<le> 53"
  shows "(\<forall>candidate best. update_best total_kcal candidate best =
            (if fst (sum_food_vector candidate) \<le> total_kcal \<and>
                (best = [] \<or> snd (sum_food_vector best) < snd (sum_food_vector candidate))
             then candidate else best)) \<and>
         (\<exists>best. exhaustive_max_protein foods total_kcal = Some (Inr best) \<and>
            (if \<exists>m \<in> {1..<2 ^ length foods}. feasible foods total_kcal m
             then \<exists>m. first_best foods total_kcal (2 ^ length foods) m \<and>
                    best = candidate_of foods m
             else best = [])) \<and>
         ((\<forall>f \<in> set foods. valid_food f) \<and> sum_list (map kcal foods) \<le> INT_MAX \<and>
          sum_list (map protein_g foods) \<le> INT_MAX \<longrightarrow>
          (\<forall>bits. (feasible foods total_kcal bits \<longleftrightarrow>
                     sum_list (map kcal (candidate_of foods bits)) \<le> total_kcal) \<and>
                  protein_of foods bits = sum_list (map protein_g (candidate_of foods bits))))"
proof (intro conjI impI allI)
  have small: "length foods < 2 ^ 31" using assms by simp
  show "update_best total_kcal candidate best =
            (if fst (sum_food_vector candidate) \<le> total_kcal \<and>
                (best = [] \<or> snd (sum_food_vector best) < snd (sum_food_vector candidate))
             then candidate else best)" for candidate best
    by (rule update_best_cases)
  show "\<exists>best. exhaustive_max_protein foods total_kcal = Some (Inr best) \<and>
            (if \<exists>m \<in> {1..<2 ^ length foods}. feasible foods total_kcal m
             then \<exists>m. first_best foods total_kcal (2 ^ length foods) m \<and>
                    best = candidate_of foods m
             else best = [])"
    by (rule exhaustive_small_result [OF assms])
  fix bits
  assume h: "(\<forall>f \<in> set foods. valid_food f) \<and> sum_list (map kcal foods) \<le> INT_MAX \<and>
          sum_list (map protein_g foods) \<le> INT_MAX"
  show "feasible foods total_kcal bits \<longleftrightarrow>
          sum_list (map kcal (candidate_of foods bits)) \<le> total_kcal"
    using h by (intro feasible_exact [OF small]) simp_all
  show "protein_of foods bits = sum_list (map protein_g (candidate_of foods bits))"
    using h by (intro protein_of_exact [OF small]) simp_all
qed

theorem exhaustive_first_best_witness:
  "length [sample_food 1 0, sample_food 2 3, sample_food 2 3] \<le> 53 \<and>
   exhaustive_max_protein [sample_food 1 0, sample_food 2 3, sample_food 2 3] 2 =
     Some (Inr [sample_food 2 3])"
proof -
  have h1: "length [sample_food 1 0, sample_food 2 3, sample_food 2 3] \<le> 53"
    by simp
  have run: "exhaustive_max_protein [sample_food 1 0, sample_food 2 3, sample_food 2 3] 2 =
     Some (Inr [sample_food 2 3])"
    by (simp add: exhaustive_max_protein_def size_t_to_int_def exhaustive_loop.simps
          bits_lt_power_def pow_2_def uint64_to_double_def update_best_def
          sum_food_vector_def sample_food_def candidate_loop.simps wrap_int_def)
  show ?thesis
    using h1 run exhaustive_first_best [OF h1, of 2] by simp
qed

text \<open>
  The claim as stated fails for one candidate with 1 kcal and no protein and the budget 5:
  the empty subset (mask 0) is feasible and attains the greatest protein, \<open>0\<close>, but the
  function returns the candidate, which replaced the empty \<^verbatim>\<open>*best\<close> without having
  strictly more protein.
\<close>

theorem exhaustive_first_best_counterexample:
  "feasible [sample_food 1 0] 5 0 \<and> candidate_of [sample_food 1 0] 0 = [] \<and>
   protein_of [sample_food 1 0] 1 = protein_of [sample_food 1 0] 0 \<and>
   exhaustive_max_protein [sample_food 1 0] 5 = Some (Inr [sample_food 1 0]) \<and>
   [sample_food 1 0] \<noteq> []"
  by (simp add: exhaustive_max_protein_def size_t_to_int_def exhaustive_loop.simps
        bits_lt_power_def pow_2_def uint64_to_double_def update_best_def
        sum_food_vector_def sample_food_def candidate_loop.simps feasible_def protein_of_def
        candidate_of_def wrap_int_def)

text \<open>
  C1 (amended). For a candidate sequence of fewer than 64 valid records whose calories and
  whose protein add up to at most \<open>INT_MAX\<close> (so that no sum wraps around) and a budget
  \<open>0 \<le> total_kcal\<close>, \<^verbatim>\<open>exhaustive_max_protein\<close> returns a subsequence of the candidates
  whose calories are within the budget. For at most 53 candidates (where the loop test is
  exact) it is the trial subset of a mask below \<open>2^n\<close>, and its protein is at least the
  protein of every subsequence of the candidates within the budget.
\<close>

theorem exhaustive_optimal:
  assumes "length foods < 64" and "0 \<le> total_kcal" and "\<forall>f \<in> set foods. valid_food f"
    and "sum_list (map kcal foods) \<le> INT_MAX" and "sum_list (map protein_g foods) \<le> INT_MAX"
  shows "\<exists>best. exhaustive_max_protein foods total_kcal = Some (Inr best) \<and>
           subseq best foods \<and>
           sum_list (map kcal best) \<le> total_kcal \<and>
           sum_food_vector best = (sum_list (map kcal best), sum_list (map protein_g best)) \<and>
           (length foods \<le> 53 \<longrightarrow>
              (\<exists>m < 2 ^ length foods. best = candidate_of foods m) \<and>
              (\<forall>ys. subseq ys foods \<and> sum_list (map kcal ys) \<le> total_kcal \<longrightarrow>
                    sum_list (map protein_g ys) \<le> sum_list (map protein_g best)))"
proof -
  let ?N = "length foods"
  have small: "?N < 2 ^ 31" using assms(1) by simp
  note feas = feasible_exact [OF small assms(3,4)]
  note prot = protein_of_exact [OF small assms(3,5)]
  obtain m where res: "exhaustive_max_protein foods total_kcal =
      Some (Inr (best_after foods total_kcal m))"
    using exhaustive_max_protein_returns [OF assms(1)] by blast
  define best where "best = best_after foods total_kcal m"
  have zero: "candidate_of foods 0 = []"
    by (rule candidate_of_0 [OF small])
  have tried: "\<exists>b. best = candidate_of foods b \<and> feasible foods total_kcal b"
  proof (cases "best = []")
    case True
    have "feasible foods total_kcal 0"
      using assms(2) by (simp add: feasible_def zero sum_food_vector_Nil)
    with True zero show ?thesis by (intro exI [of _ 0]) simp
  next
    case False
    then show ?thesis
      using best_after_tried [of foods total_kcal m] by (auto simp: best_def)
  qed
  then obtain b where b: "best = candidate_of foods b" "feasible foods total_kcal b"
    by blast
  have sub: "subseq best foods"
    unfolding b(1) by (rule candidate_of_subseq [OF small])
  have within: "sum_list (map kcal best) \<le> total_kcal"
    using b(2) by (simp add: feas b(1))
  have sums: "sum_food_vector best = (sum_list (map kcal best), sum_list (map protein_g best))"
    using subseq_kcal_exact(1) [OF sub assms(3,4)] subseq_protein_exact(1) [OF sub assms(3,5)]
    by (simp add: prod_eq_iff)
  have opt: "(\<exists>m < 2 ^ ?N. best = candidate_of foods m) \<and>
      (\<forall>ys. subseq ys foods \<and> sum_list (map kcal ys) \<le> total_kcal \<longrightarrow>
            sum_list (map protein_g ys) \<le> sum_list (map protein_g best))"
    if n53: "?N \<le> 53"
  proof -
    obtain best' where res': "exhaustive_max_protein foods total_kcal = Some (Inr best')"
      and char': "if \<exists>m \<in> {1..<2 ^ ?N}. feasible foods total_kcal m
         then \<exists>m. first_best foods total_kcal (2 ^ ?N) m \<and> best' = candidate_of foods m
         else best' = []"
      using exhaustive_small_result [OF n53] by blast
    from res res' have eq: "best' = best" by (simp add: best_def)
    have char: "if \<exists>m \<in> {1..<2 ^ ?N}. feasible foods total_kcal m
         then \<exists>m. first_best foods total_kcal (2 ^ ?N) m \<and> best = candidate_of foods m
         else best = []"
      using char' unfolding eq .
    have nonneg: "0 \<le> protein_of foods k" for k
      unfolding prot
      by (rule subseq_protein_exact(2) [OF candidate_of_subseq [OF small] assms(3,5)])
    show ?thesis
    proof (cases "\<exists>m \<in> {1..<2 ^ ?N}. feasible foods total_kcal m")
      case True
      with char obtain k where k: "first_best foods total_kcal (2 ^ ?N) k"
        and best: "best = candidate_of foods k" by auto
      have mask: "\<exists>m < 2 ^ ?N. best = candidate_of foods m"
        using k best by (auto simp: first_best_def)
      have "sum_list (map protein_g ys) \<le> sum_list (map protein_g best)"
        if ys: "subseq ys foods" "sum_list (map kcal ys) \<le> total_kcal" for ys
      proof -
        obtain m' where m': "m' < 2 ^ ?N" "ys = candidate_of foods m'"
          using subseq_is_candidate [OF small ys(1)] by blast
        show ?thesis
        proof (cases "m' = 0")
          case True
          with m' zero have "ys = []" by simp
          then show ?thesis
            using nonneg [of k] by (simp add: best prot)
        next
          case False
          with m' have "m' \<in> {1..<2 ^ ?N}" by simp
          moreover have "feasible foods total_kcal m'"
            using ys(2) m'(2) by (simp add: feas)
          ultimately have "protein_of foods m' \<le> protein_of foods k"
            using k by (simp add: first_best_def)
          then show ?thesis
            by (simp add: best m'(2) prot)
        qed
      qed
      with mask show ?thesis by blast
    next
      case False
      with char have best: "best = []" by simp
      have mask: "\<exists>m < 2 ^ ?N. best = candidate_of foods m"
        using zero best by (intro exI [of _ 0]) simp
      have "sum_list (map protein_g ys) \<le> sum_list (map protein_g best)"
        if ys: "subseq ys foods" "sum_list (map kcal ys) \<le> total_kcal" for ys
      proof -
        obtain m' where m': "m' < 2 ^ ?N" "ys = candidate_of foods m'"
          using subseq_is_candidate [OF small ys(1)] by blast
        have "feasible foods total_kcal m'"
          using ys(2) m'(2) by (simp add: feas)
        with False m'(1) have "m' = 0"
          by (cases "m' = 0") auto
        with m'(2) zero have "ys = []" by simp
        then show ?thesis by (simp add: best)
      qed
      with mask show ?thesis by blast
    qed
  qed
  from res sub within sums opt show ?thesis
    unfolding best_def [symmetric] by blast
qed

theorem exhaustive_optimal_witness:
  "length [sample_food 200 20, sample_food 300 25, sample_food 150 10] < 64 \<and>
   (0::int) \<le> 400 \<and>
   list_all valid_food [sample_food 200 20, sample_food 300 25, sample_food 150 10] \<and>
   sum_list (map kcal [sample_food 200 20, sample_food 300 25, sample_food 150 10])
     \<le> INT_MAX \<and>
   sum_list (map protein_g [sample_food 200 20, sample_food 300 25, sample_food 150 10])
     \<le> INT_MAX \<and>
   length [sample_food 200 20, sample_food 300 25, sample_food 150 10] \<le> 53 \<and>
   exhaustive_max_protein [sample_food 200 20, sample_food 300 25, sample_food 150 10] 400 =
     Some (Inr [sample_food 200 20, sample_food 150 10])"
proof -
  have h1: "length [sample_food 200 20, sample_food 300 25, sample_food 150 10] < 64"
    by simp
  have h2: "(0::int) \<le> 400" by simp
  have h3: "\<forall>f \<in> set [sample_food 200 20, sample_food 300 25, sample_food 150 10].
              valid_food f"
    by (simp add: valid_food_def sample_food_def INT_MAX_def)
  have h4: "sum_list (map kcal [sample_food 200 20, sample_food 300 25, sample_food 150 10])
     \<le> INT_MAX"
    by (simp add: sample_food_def INT_MAX_def)
  have h5: "sum_list (map protein_g
     [sample_food 200 20, sample_food 300 25, sample_food 150 10]) \<le> INT_MAX"
    by (simp add: sample_food_def INT_MAX_def)
  have run: "exhaustive_max_protein
      [sample_food 200 20, sample_food 300 25, sample_food 150 10] 400 =
     Some (Inr [sample_food 200 20, sample_food 150 10])"
    by (simp add: exhaustive_max_protein_def size_t_to_int_def exhaustive_loop.simps
          bits_lt_power_def pow_2_def uint64_to_double_def update_best_def
          sum_food_vector_def sample_food_def candidate_loop.simps wrap_int_def)
  show ?thesis
    using h1 h2 h3 h4 h5 run exhaustive_optimal [OF h1 h2 h3 h4 h5] by simp
qed

text \<open>
  The claim as stated, for every budget and every candidate sequence, fails at the budget
  \<open>-1\<close>: the function returns the empty sequence, whose calories, \<open>0\<close>, are above the
  budget. It fails for two valid candidates of \<open>2147483647\<close> and \<open>1\<close> kcal and the budget
  \<open>0\<close>: the calorie sum of both wraps around to \<open>INT_MIN\<close>, and both are returned, with
  calories above the budget.
\<close>

theorem exhaustive_optimal_counterexample:
  "exhaustive_max_protein [sample_food 1 0] (- 1) = Some (Inr []) \<and>
   \<not> sum_list (map kcal []) \<le> (- 1::int) \<and>
   exhaustive_max_protein [sample_food 2147483647 1, sample_food 1 1] 0 =
     Some (Inr [sample_food 2147483647 1, sample_food 1 1]) \<and>
   \<not> sum_list (map kcal [sample_food 2147483647 1, sample_food 1 1]) \<le> 0"
  by (simp add: exhaustive_max_protein_def size_t_to_int_def exhaustive_loop.simps
        bits_lt_power_def pow_2_def uint64_to_double_def update_best_def
        sum_food_vector_def sample_food_def candidate_loop.simps wrap_int_def)

section \<open>The loop test from 54 candidates on\<close>

text \<open>
  From 54 candidates on, the conversion of the mask to \<^verbatim>\<open>double\<close> rounds. For \<open>n = 54\<close>
  the last mask, \<open>2^54 - 1\<close>, converts to \<open>2^54\<close> and fails the loop test, so the subset of
  all candidates is never tried: for 54 candidates of no calories and one gram of protein
  each and the budget 0, the result has less protein than the feasible subset of all 54.
\<close>

lemma last_mask_not_tried: "\<not> bits_lt_power (2 ^ 54 - 1) 54"
  by (simp add: bits_lt_power_def pow_2_def uint64_to_double_def bit_length.simps)

lemma mask_lacks_bit:
  fixes b :: nat
  assumes "b < 2 ^ N - 1"
  shows "\<exists>j < N. \<not> bit b j"
proof (rule ccontr)
  assume "\<not> (\<exists>j < N. \<not> bit b j)"
  then have "take_bit N b = mask N"
    by (intro bit_eqI) (auto simp: bit_take_bit_iff bit_mask_iff)
  moreover have "take_bit N b \<le> b"
    by (rule take_bit_nat_less_eq_self)
  ultimately have "2 ^ N - 1 \<le> b"
    by (simp add: mask_eq_exp_minus_1)
  with assms show False by simp
qed

lemma candidate_of_shorter:
  assumes "length foods < 2 ^ 31" and "b < 2 ^ length foods - 1"
  shows "length (candidate_of foods b) < length foods"
proof -
  obtain j where j: "j < length foods" "\<not> bit b j"
    using mask_lacks_bit [OF assms(2)] by blast
  have "{i. i < length foods \<and> bit b i} \<subset> {..<length foods}"
    using j by auto
  then have "card {i. i < length foods \<and> bit b i} < card {..<length foods}"
    by (intro psubset_card_mono) simp_all
  then show ?thesis
    by (simp add: candidate_of_nths [OF assms(1)] length_nths)
qed

lemma unit_protein_sum:
  assumes "\<forall>f \<in> set xs. protein_g f = 1" and "length xs \<le> 54"
  shows "snd (sum_food_vector xs) = int (length xs)"
proof -
  have "sum_list (map protein_g xs) = int (length xs)"
    using assms(1) by (induction xs) simp_all
  moreover have "is_int (int (length xs))"
    using assms(2) by (simp add: is_int_def INT_MIN_def INT_MAX_def)
  ultimately show ?thesis
    by (simp add: sum_food_vector_sum_list wrap_int_id)
qed

lemma exhaustive_54_below_optimum:
  "\<exists>best. exhaustive_max_protein (replicate 54 (sample_food 0 1)) 0 = Some (Inr best) \<and>
          snd (sum_food_vector best) < 54"
proof -
  let ?F = "replicate 54 (sample_food 0 1)"
  have len: "length ?F = 54" by simp
  have small: "length ?F < 2 ^ 31" by simp
  have stop: "\<not> bits_lt_power (2 ^ 54 - 1) (int (length ?F))"
    by (simp add: bits_lt_power_def pow_2_def uint64_to_double_def bit_length.simps)
  obtain m where m: "m \<le> 2 ^ 54 - 1"
    and res: "exhaustive_max_protein ?F 0 = Some (Inr (best_after ?F 0 m))"
    using exhaustive_max_protein_returns_before [of ?F "2 ^ 54 - 1" 0] stop by auto
  have unit: "\<forall>f \<in> set (candidate_of ?F b). protein_g f = 1" for b
    using candidate_of_subset [OF small, of b] by (auto simp: sample_food_def)
  have "snd (sum_food_vector (best_after ?F 0 m)) < 54"
  proof (cases "best_after ?F 0 m = []")
    case True
    then show ?thesis by (simp add: sum_food_vector_Nil)
  next
    case False
    then obtain b where b: "b < m" "best_after ?F 0 m = candidate_of ?F b"
      using best_after_tried [of ?F 0 m] by blast
    from b(1) m have "b < 2 ^ length ?F - 1" by simp
    then have short: "length (candidate_of ?F b) < length ?F"
      by (rule candidate_of_shorter [OF small])
    then have "length (candidate_of ?F b) \<le> 54" by simp
    from unit_protein_sum [OF unit this] short show ?thesis
      unfolding b(2) by simp
  qed
  with res show ?thesis by blast
qed

lemma all_54_feasible:
  "fst (sum_food_vector (replicate 54 (sample_food 0 1))) \<le> 0 \<and>
   snd (sum_food_vector (replicate 54 (sample_food 0 1))) = 54"
  by (simp add: sum_food_vector_sum_list sum_list_replicate sample_food_def wrap_int_def)

end
